theory Spec2Isabelle
  imports Main "HOL-Library.Word"
begin

unbundle bit_operations_syntax

section \<open>The concurrent bitset of Kokkos, run sequentially\<close>

text \<open>
  The source is \<^verbatim>\<open>struct concurrent_bitset\<close> (the second document of
  \<^verbatim>\<open>Kokkos_SYCL_WorkgroupReduction.hpp\<close>). Every function takes a raw pointer
  \<^verbatim>\<open>uint32_t volatile *buffer\<close>: word 0 is the header (state tag and used count),
  the words after it are the bitmap. Here each call runs to completion on its own, so an
  atomic read-modify-write is a read followed by a write, and a memory fence does nothing.
  HOL has constants \<open>bit\<close> and \<open>set\<close>: the parameter \<^verbatim>\<open>bit\<close> is written \<open>bit'\<close>
  and the function \<^verbatim>\<open>set\<close> is \<open>set_bitset\<close>. The enum constants that are only used as
  shift amounts are natural numbers.
\<close>

type_synonym u32 = "32 word"

type_synonym buffer = "u32 list"

subsection \<open>The enum constants\<close>

definition bits_per_int_lg2 :: nat where
  "bits_per_int_lg2 = 5"

definition bits_per_int_mask :: u32 where
  "bits_per_int_mask = push_bit bits_per_int_lg2 1 - 1"

definition max_bit_count_lg2 :: u32 where
  "max_bit_count_lg2 = 25"

definition max_bit_count :: u32 where
  "max_bit_count = push_bit (unat max_bit_count_lg2) 1"

definition state_shift :: nat where
  "state_shift = 26"

definition state_used_mask :: u32 where
  "state_used_mask = push_bit state_shift 1 - 1"

definition state_header_mask :: u32 where
  "state_header_mask = push_bit state_shift 0x001f"

subsection \<open>Sizing helpers\<close>

definition buffer_bound_lg2 :: "u32 \<Rightarrow> u32" where
  "buffer_bound_lg2 bit_bound_lg2 =
     (if bit_bound_lg2 \<le> max_bit_count_lg2
      then 1 + push_bit (if of_nat bits_per_int_lg2 < bit_bound_lg2
                         then unat (bit_bound_lg2 - of_nat bits_per_int_lg2) else 0) 1
      else 0)"

definition buffer_bound :: "u32 \<Rightarrow> u32" where
  "buffer_bound bit_bound =
     (if bit_bound \<le> max_bit_count
      then 1 + drop_bit bits_per_int_lg2 bit_bound +
           (if (bit_bound AND bits_per_int_mask) \<noteq> 0 then 1 else 0)
      else 0)"

subsection \<open>Memory accesses\<close>

text \<open>
  An access through \<^verbatim>\<open>buffer + i\<close> outside the words the owner allocated is undefined
  behaviour in C++. The model makes it a value: \<open>Inl OutOfBounds\<close>.
\<close>

datatype fault = OutOfBounds

text \<open>
  Modelled from the spec: the atomic primitives of \<^verbatim>\<open>Kokkos_Atomic.hpp\<close> are not
  among the repository's files. The spec takes them as sequentially consistent building
  blocks: each returns the value the word had before and stores the combined value.
\<close>

definition atomic_fetch_op ::
  "(u32 \<Rightarrow> u32 \<Rightarrow> u32) \<Rightarrow> buffer \<Rightarrow> nat \<Rightarrow> u32 \<Rightarrow> fault + (u32 \<times> buffer)" where
  "atomic_fetch_op f buffer i v =
     (if i < length buffer then Inr (buffer ! i, buffer[i := f (buffer ! i) v])
      else Inl OutOfBounds)"

definition atomic_fetch_add :: "buffer \<Rightarrow> nat \<Rightarrow> u32 \<Rightarrow> fault + (u32 \<times> buffer)" where
  "atomic_fetch_add = atomic_fetch_op (\<lambda>old v. old + v)"

definition atomic_fetch_sub :: "buffer \<Rightarrow> nat \<Rightarrow> u32 \<Rightarrow> fault + (u32 \<times> buffer)" where
  "atomic_fetch_sub = atomic_fetch_op (\<lambda>old v. old - v)"

definition atomic_fetch_or :: "buffer \<Rightarrow> nat \<Rightarrow> u32 \<Rightarrow> fault + (u32 \<times> buffer)" where
  "atomic_fetch_or = atomic_fetch_op (\<lambda>old v. old OR v)"

definition atomic_fetch_and :: "buffer \<Rightarrow> nat \<Rightarrow> u32 \<Rightarrow> fault + (u32 \<times> buffer)" where
  "atomic_fetch_and = atomic_fetch_op (\<lambda>old v. old AND v)"

text \<open>
  Modelled from the spec: \<^verbatim>\<open>Kokkos::countr_one\<close> of \<^verbatim>\<open>Kokkos_BitManipulation.hpp\<close> is
  not among the repository's files. The spec calls it \<^verbatim>\<open>countTrailingOnes\<close>: the
  number of consecutive 1 bits of the word, counted from bit 0.
\<close>

fun countr_one_upto :: "nat \<Rightarrow> u32 \<Rightarrow> nat" where
  "countr_one_upto 0 w = 0"
| "countr_one_upto (Suc n) w =
     (if bit w 0 then Suc (countr_one_upto n (drop_bit 1 w)) else 0)"

definition countr_one :: "u32 \<Rightarrow> nat" where
  "countr_one w = countr_one_upto 32 w"

subsection \<open>acquire\<close>

text \<open>
  A call of \<open>acquire\<close> returns \<open>None\<close> when its retry loop runs forever,
  \<open>Some (Inl OutOfBounds)\<close> when it leaves the buffer, and otherwise the pair
  \<^verbatim>\<open>(which_bit, bit_count)\<close> with the buffer as the call leaves it. The pair holds C++
  \<^verbatim>\<open>int\<close>s: an unsigned word is converted with \<open>sint\<close>.
\<close>

type_synonym acquire_result = "(fault + ((int \<times> int) \<times> buffer)) option"

partial_function (option) acquire_bounded_lg2_loop ::
  "buffer \<Rightarrow> u32 \<Rightarrow> u32 \<Rightarrow> u32 \<Rightarrow> (fault + ((int \<times> int) \<times> buffer)) option" where
  "acquire_bounded_lg2_loop buffer word_count state_bit_used bit' =
     (let word = drop_bit bits_per_int_lg2 bit';
          mask = push_bit (unat (bit' AND bits_per_int_mask)) 1
      in case atomic_fetch_or buffer (unat word + 1) mask of
           Inl e \<Rightarrow> Some (Inl e)
         | Inr (prev, buffer') \<Rightarrow>
             if (prev AND mask) = 0
             then Some (Inr ((sint bit', sint (state_bit_used + 1)), buffer'))
             else
               let j = (if prev = - 1 then - 1 else int (countr_one prev))
               in acquire_bounded_lg2_loop buffer' word_count state_bit_used
                    (if 0 \<le> j then push_bit bits_per_int_lg2 word OR word_of_int j
                     else (if word + 1 < word_count
                           then push_bit bits_per_int_lg2 (word + 1) else 0)
                          OR (bit' AND bits_per_int_mask)))"

declare acquire_bounded_lg2_loop.simps [code]

text \<open>
  \<^verbatim>\<open>1 << bit_bound_lg2\<close> is undefined in C++ for a shift of 32 or more; \<open>push_bit\<close>
  gives 0 there. The value is not used then: the first test already returns \<open>(-3, -3)\<close>.
\<close>

definition acquire_bounded_lg2 :: "buffer \<Rightarrow> u32 \<Rightarrow> u32 \<Rightarrow> u32 \<Rightarrow> acquire_result" where
  "acquire_bounded_lg2 buffer bit_bound_lg2 bit' state_header =
     (let bit_bound = push_bit (unat bit_bound_lg2) 1;
          word_count = drop_bit bits_per_int_lg2 bit_bound
      in if max_bit_count_lg2 < bit_bound_lg2 \<or> (state_header AND NOT state_header_mask) \<noteq> 0
            \<or> bit_bound < bit'
         then Some (Inr ((- 3, - 3), buffer))
         else case atomic_fetch_add buffer 0 1 of
           Inl e \<Rightarrow> Some (Inl e)
         | Inr (state, buffer1) \<Rightarrow>
             let state_error = (state_header \<noteq> (state AND state_header_mask));
                 state_bit_used = state AND state_used_mask
             in if state_error \<or> bit_bound \<le> state_bit_used
                then case atomic_fetch_sub buffer1 0 1 of
                       Inl e \<Rightarrow> Some (Inl e)
                     | Inr (_, buffer2) \<Rightarrow>
                         Some (Inr (if state_error then (- 2, - 2) else (- 1, - 1), buffer2))
                else acquire_bounded_lg2_loop buffer1 word_count state_bit_used bit')"

partial_function (option) acquire_bounded_loop ::
  "buffer \<Rightarrow> u32 \<Rightarrow> u32 \<Rightarrow> u32 \<Rightarrow> u32 \<Rightarrow> (fault + ((int \<times> int) \<times> buffer)) option" where
  "acquire_bounded_loop buffer bit_bound word_count state_bit_used bit' =
     (let word = drop_bit bits_per_int_lg2 bit';
          mask = push_bit (unat (bit' AND bits_per_int_mask)) 1
      in case atomic_fetch_or buffer (unat word + 1) mask of
           Inl e \<Rightarrow> Some (Inl e)
         | Inr (prev, buffer') \<Rightarrow>
             if (prev AND mask) = 0
             then Some (Inr ((sint bit', sint (state_bit_used + 1)), buffer'))
             else
               let j = (if prev = - 1 then - 1 else int (countr_one prev));
                   bit1 = (if 0 \<le> j then push_bit bits_per_int_lg2 word OR word_of_int j
                           else bit')
               in acquire_bounded_loop buffer' bit_bound word_count state_bit_used
                    (if j < 0 \<or> bit_bound \<le> bit1
                     then (if word + 1 < word_count
                           then push_bit bits_per_int_lg2 (word + 1) else 0)
                          OR (bit1 AND bits_per_int_mask)
                     else bit1))"

declare acquire_bounded_loop.simps [code]

definition acquire_bounded :: "buffer \<Rightarrow> u32 \<Rightarrow> u32 \<Rightarrow> u32 \<Rightarrow> acquire_result" where
  "acquire_bounded buffer bit_bound bit' state_header =
     (if max_bit_count < bit_bound \<or> (state_header AND NOT state_header_mask) \<noteq> 0
         \<or> bit_bound \<le> bit'
      then Some (Inr ((- 3, - 3), buffer))
      else
        let word_count = drop_bit bits_per_int_lg2 bit_bound
        in case atomic_fetch_add buffer 0 1 of
           Inl e \<Rightarrow> Some (Inl e)
         | Inr (state, buffer1) \<Rightarrow>
             let state_error = (state_header \<noteq> (state AND state_header_mask));
                 state_bit_used = state AND state_used_mask
             in if state_error \<or> bit_bound \<le> state_bit_used
                then case atomic_fetch_sub buffer1 0 1 of
                       Inl e \<Rightarrow> Some (Inl e)
                     | Inr (_, buffer2) \<Rightarrow>
                         Some (Inr (if state_error then (- 2, - 2) else (- 1, - 1), buffer2))
                else acquire_bounded_loop buffer1 bit_bound word_count state_bit_used bit')"

subsection \<open>release and set\<close>

text \<open>
  \<^verbatim>\<open>*buffer\<close> reads the header; a buffer without a header word is out of bounds.
  The returned \<^verbatim>\<open>int\<close> is \<^verbatim>\<open>(count & state_used_mask) - 1\<close>, computed on unsigned
  words and converted.
\<close>

definition release :: "buffer \<Rightarrow> u32 \<Rightarrow> u32 \<Rightarrow> fault + (int \<times> buffer)" where
  "release buffer bit' state_header =
     (case buffer of
        [] \<Rightarrow> Inl OutOfBounds
      | header # _ \<Rightarrow>
          if state_header \<noteq> (state_header_mask AND header) then Inr (- 2, buffer)
          else
            let mask = push_bit (unat (bit' AND bits_per_int_mask)) 1
            in (case atomic_fetch_and buffer (unat (drop_bit bits_per_int_lg2 bit') + 1)
                       (NOT mask) of
                 Inl e \<Rightarrow> Inl e
               | Inr (prev, buffer1) \<Rightarrow>
                   if (prev AND mask) = 0 then Inr (- 1, buffer1)
                   else (case atomic_fetch_sub buffer1 0 1 of
                           Inl e \<Rightarrow> Inl e
                         | Inr (count, buffer2) \<Rightarrow>
                             Inr (sint ((count AND state_used_mask) - 1), buffer2))))"

definition set_bitset :: "buffer \<Rightarrow> u32 \<Rightarrow> u32 \<Rightarrow> fault + (int \<times> buffer)" where
  "set_bitset buffer bit' state_header =
     (case buffer of
        [] \<Rightarrow> Inl OutOfBounds
      | header # _ \<Rightarrow>
          if state_header \<noteq> (state_header_mask AND header) then Inr (- 2, buffer)
          else
            let mask = push_bit (unat (bit' AND bits_per_int_mask)) 1
            in (case atomic_fetch_or buffer (unat (drop_bit bits_per_int_lg2 bit') + 1) mask of
                 Inl e \<Rightarrow> Inl e
               | Inr (prev, buffer1) \<Rightarrow>
                   if (prev AND mask) = 0 then Inr (- 1, buffer1)
                   else (case atomic_fetch_sub buffer1 0 1 of
                           Inl e \<Rightarrow> Inl e
                         | Inr (count, buffer2) \<Rightarrow>
                             Inr (sint ((count AND state_used_mask) - 1), buffer2))))"

subsection \<open>Reading a buffer\<close>

text \<open>
  The notions the properties below are stated with: the two fields of the header word, the
  test of one bit of the bitmap, and the number of bits set in the bitmap words.
\<close>

definition used_count :: "buffer \<Rightarrow> nat" where
  "used_count buffer =
     (case buffer of [] \<Rightarrow> 0 | header # _ \<Rightarrow> unat (header AND state_used_mask))"

definition tag_bits :: "buffer \<Rightarrow> u32" where
  "tag_bits buffer =
     (case buffer of [] \<Rightarrow> 0 | header # _ \<Rightarrow> header AND state_header_mask)"

definition bit_claimed :: "buffer \<Rightarrow> u32 \<Rightarrow> bool" where
  "bit_claimed buffer bit' =
     (let i = unat (drop_bit bits_per_int_lg2 bit') + 1
      in i < length buffer \<and> bit (buffer ! i) (unat (bit' AND bits_per_int_mask)))"

fun popcount_upto :: "nat \<Rightarrow> u32 \<Rightarrow> nat" where
  "popcount_upto 0 w = 0"
| "popcount_upto (Suc n) w = (if bit w n then 1 else 0) + popcount_upto n w"

definition popcount :: "u32 \<Rightarrow> nat" where
  "popcount w = popcount_upto 32 w"

definition bitmap_popcount :: "buffer \<Rightarrow> nat" where
  "bitmap_popcount buffer = sum_list (map popcount (tl buffer))"

text \<open>
  \<open>claims_bit buffer b buffer'\<close>: bit \<open>b\<close> lies in a word of the buffer, is 0 in
  \<open>buffer\<close>, and \<open>buffer'\<close> is \<open>buffer\<close> with that one bit set.
\<close>

definition claims_bit :: "buffer \<Rightarrow> u32 \<Rightarrow> buffer \<Rightarrow> bool" where
  "claims_bit buffer b buffer' =
     (let i = unat (drop_bit bits_per_int_lg2 b) + 1;
          m = push_bit (unat (b AND bits_per_int_mask)) 1
      in i < length buffer \<and> (buffer ! i AND m) = 0 \<and> buffer' = buffer[i := buffer ! i OR m])"

text \<open>
  The bit a failed iteration of the retry loop tries next, as each loop body computes it
  from the bit just tried and the word it read.
\<close>

definition next_bit_lg2 :: "u32 \<Rightarrow> u32 \<Rightarrow> u32 \<Rightarrow> u32" where
  "next_bit_lg2 word_count bit' prev =
     (let word = drop_bit bits_per_int_lg2 bit';
          j = (if prev = - 1 then - 1 else int (countr_one prev))
      in if 0 \<le> j then push_bit bits_per_int_lg2 word OR word_of_int j
         else (if word + 1 < word_count then push_bit bits_per_int_lg2 (word + 1) else 0)
              OR (bit' AND bits_per_int_mask))"

definition next_bit_bounded :: "u32 \<Rightarrow> u32 \<Rightarrow> u32 \<Rightarrow> u32 \<Rightarrow> u32" where
  "next_bit_bounded bit_bound word_count bit' prev =
     (let word = drop_bit bits_per_int_lg2 bit';
          j = (if prev = - 1 then - 1 else int (countr_one prev));
          bit1 = (if 0 \<le> j then push_bit bits_per_int_lg2 word OR word_of_int j else bit')
      in if j < 0 \<or> bit_bound \<le> bit1
         then (if word + 1 < word_count then push_bit bits_per_int_lg2 (word + 1) else 0)
              OR (bit1 AND bits_per_int_mask)
         else bit1)"

text \<open>
  The bits the loops stay on when started below a power-of-two bound: the word of the bit
  is one of the \<open>word_count\<close> words, or it is word 0.
\<close>

definition word_in_range :: "u32 \<Rightarrow> u32 \<Rightarrow> bool" where
  "word_in_range word_count bit' =
     (drop_bit bits_per_int_lg2 bit' < word_count
      \<or> word_count = 0 \<and> drop_bit bits_per_int_lg2 bit' = 0)"

text \<open>
  The quiescent invariant of a buffer of \<open>capacity\<close> bits: there is a header word, the
  used count is the number of bits set in the bitmap, and it is at most the capacity.
\<close>

definition quiescent :: "u32 \<Rightarrow> buffer \<Rightarrow> bool" where
  "quiescent capacity buffer =
     (buffer \<noteq> [] \<and> used_count buffer = bitmap_popcount buffer
      \<and> used_count buffer \<le> unat capacity)"

text \<open>
  \<open>n\<close> consecutive calls of \<open>acquire_bounded\<close> with the default hint and tag (both 0),
  collecting the returned pairs; \<open>None\<close> when one of them does not return a pair.
\<close>

fun acquire_times :: "nat \<Rightarrow> u32 \<Rightarrow> buffer \<Rightarrow> ((int \<times> int) list \<times> buffer) option" where
  "acquire_times 0 bit_bound buffer = Some ([], buffer)"
| "acquire_times (Suc n) bit_bound buffer =
     (case acquire_bounded buffer bit_bound 0 0 of
        Some (Inr (r, buffer')) \<Rightarrow>
          (case acquire_times n bit_bound buffer' of
             Some (rs, buffer'') \<Rightarrow> Some (r # rs, buffer'')
           | None \<Rightarrow> None)
      | _ \<Rightarrow> None)"

subsection \<open>Evaluating the constants\<close>

lemmas bitset_consts =
  bits_per_int_lg2_def bits_per_int_mask_def max_bit_count_lg2_def max_bit_count_def
  state_shift_def state_used_mask_def state_header_mask_def

lemmas atomic_defs =
  atomic_fetch_op_def atomic_fetch_add_def atomic_fetch_sub_def atomic_fetch_or_def
  atomic_fetch_and_def

lemma header_add_sub:
  "atomic_fetch_add (header # bitmap) 0 1 = Inr (header, (header + 1) # bitmap)"
  "atomic_fetch_sub (header # bitmap) 0 1 = Inr (header, (header - 1) # bitmap)"
  by (simp_all add: atomic_defs)

section \<open>Word arithmetic of the header and the bit masks\<close>

lemma pred_mod_div:
  fixes H M :: nat
  assumes "H mod M \<noteq> 0"
  shows "(H - 1) mod M = H mod M - 1" and "(H - 1) div M = H div M"
  using assms by (cases H; simp add: mod_Suc div_Suc split: if_splits)+

lemma succ_mod_div:
  fixes H M :: nat
  assumes "Suc (H mod M) \<noteq> M"
  shows "Suc H mod M = Suc (H mod M)" and "Suc H div M = H div M"
  using assms by (simp_all add: mod_Suc div_Suc)

lemma used_mask_eq: "state_used_mask = mask 26"
  by (simp add: bitset_consts mask_eq_exp_minus_1)

lemma header_mask_eq: "state_header_mask = push_bit 26 (mask 5)"
  by (simp add: bitset_consts mask_eq_exp_minus_1)

lemma sint_small: "unat (w :: u32) < 2147483648 \<Longrightarrow> sint w = int (unat w)"
proof -
  assume "unat w < 2147483648"
  then have "int (unat w) < 2147483648" by linarith
  then have a: "uint w < 2 ^ 31" by simp
  have "(0::int) \<le> uint w" by simp
  moreover have "- (2 ^ 31) \<le> (0::int)" by simp
  ultimately have b: "- (2 ^ 31) \<le> uint w" by (rule order_trans [rotated])
  have "signed_take_bit 31 (uint w) = uint w"
    using b a by (rule signed_take_bit_int_eq_self)
  moreover have "sint w = signed_take_bit 31 (uint w)"
    using sint_uint [of w] by simp
  ultimately show ?thesis by simp
qed

lemma unat_used: "unat (h AND state_used_mask) = unat h mod 2 ^ 26"
  apply (simp only: used_mask_eq flip: take_bit_eq_mask)
  apply (simp only: unsigned_take_bit_eq)
  apply (simp only: take_bit_eq_mod)
  done

lemma header_field: "(h AND state_header_mask) = push_bit 26 (drop_bit 26 h AND mask 5)"
  unfolding header_mask_eq by (rule bit_eqI) (auto simp add: bit_simps)

lemma unat_drop26: "unat (drop_bit 26 (h :: u32)) = unat h div 2 ^ 26"
  apply (simp only: unat_drop_bit_eq)
  apply (simp only: drop_bit_eq_div)
  done

lemma used_dec:
  assumes "(h AND state_used_mask) \<noteq> 0"
  shows "(h - 1) AND state_used_mask = (h AND state_used_mask) - 1"
    and "(h - 1) AND state_header_mask = h AND state_header_mask"
    and "unat ((h AND state_used_mask) - 1) = unat (h AND state_used_mask) - 1"
    and "sint ((h AND state_used_mask) - 1) = int (unat (h AND state_used_mask)) - 1"
proof -
  let ?r = "h AND state_used_mask"
  have "unat ?r \<noteq> 0" using assms by (simp only: unat_eq_0 not_False_eq_True)
  then have r: "unat h mod 2 ^ 26 \<noteq> 0"
    unfolding unat_used .
  then have h: "h \<noteq> 0" by auto
  have m1: "unat (h - 1) = unat h - 1" using h by (rule unat_minus_one)
  show u: "unat (?r - 1) = unat ?r - 1" using assms by (rule unat_minus_one)
  have "unat ((h - 1) AND state_used_mask) = unat (?r - 1)"
    by (simp only: u unat_used m1 pred_mod_div [OF r])
  then show "(h - 1) AND state_used_mask = ?r - 1" by (rule word_unat_eq_iff [THEN iffD2])
  have "unat (drop_bit 26 (h - 1)) = unat (drop_bit 26 h)"
    by (simp only: unat_drop26 m1 pred_mod_div [OF r])
  then have "drop_bit 26 (h - 1) = drop_bit 26 h" by (rule word_unat_eq_iff [THEN iffD2])
  then show "(h - 1) AND state_header_mask = h AND state_header_mask"
    by (simp only: header_field)
  have "unat h mod 2 ^ 26 < 2 ^ 26" by simp
  then have "unat (?r - 1) < 2147483648"
    by (simp only: u unat_used) simp
  then have "sint (?r - 1) = int (unat (?r - 1))" by (rule sint_small)
  then show "sint (?r - 1) = int (unat ?r) - 1"
    using \<open>unat ?r \<noteq> 0\<close> by (simp only: u)
qed

lemma unat_max_bit_count: "unat max_bit_count = 2 ^ 25"
  by (simp add: bitset_consts)

lemma used_inc:
  assumes "(h AND state_used_mask) < bit_bound" and "bit_bound \<le> max_bit_count"
  shows "(h + 1) AND state_used_mask = (h AND state_used_mask) + 1"
    and "(h + 1) AND state_header_mask = h AND state_header_mask"
    and "unat ((h AND state_used_mask) + 1) = unat (h AND state_used_mask) + 1"
    and "sint ((h AND state_used_mask) + 1) = int (unat (h AND state_used_mask)) + 1"
proof -
  let ?r = "h AND state_used_mask"
  have "unat ?r < unat max_bit_count"
    using assms by (simp only: word_less_nat_alt word_le_nat_alt)
  then have r: "unat h mod 2 ^ 26 < 2 ^ 25"
    by (simp only: unat_used unat_max_bit_count)
  then have r': "Suc (unat h mod 2 ^ 26) \<noteq> 2 ^ 26" by simp
  have "h + 1 \<noteq> 0"
  proof
    assume "h + 1 = 0"
    then have "h = - 1" by (simp add: eq_neg_iff_add_eq_0)
    then have "unat h mod 2 ^ 26 = 2 ^ 26 - 1" by (simp add: unsigned_minus_1_eq_mask mask_eq_exp_minus_1)
    with r show False by simp
  qed
  then have p1: "unat (h + 1) = Suc (unat h)"
    using unatSuc [of h] by (simp add: add.commute)
  have "?r + 1 \<noteq> 0"
  proof
    assume "?r + 1 = 0"
    then have "?r = - 1" by (simp add: eq_neg_iff_add_eq_0)
    then have "unat ?r = 2 ^ 32 - 1" by (simp add: unsigned_minus_1_eq_mask mask_eq_exp_minus_1)
    with r show False by (simp only: unat_used) simp
  qed
  then have u': "unat (?r + 1) = Suc (unat ?r)"
    using unatSuc [of ?r] by (simp add: add.commute)
  then show u: "unat (?r + 1) = unat ?r + 1" by simp
  have "unat ((h + 1) AND state_used_mask) = unat (?r + 1)"
    by (simp only: u' unat_used p1 succ_mod_div [OF r'])
  then show "(h + 1) AND state_used_mask = ?r + 1" by (rule word_unat_eq_iff [THEN iffD2])
  have "unat (drop_bit 26 (h + 1)) = unat (drop_bit 26 h)"
    by (simp only: unat_drop26 p1 succ_mod_div [OF r'])
  then have "drop_bit 26 (h + 1) = drop_bit 26 h" by (rule word_unat_eq_iff [THEN iffD2])
  then show "(h + 1) AND state_header_mask = h AND state_header_mask"
    by (simp only: header_field)
  have "unat (?r + 1) < 2147483648"
    using r by (simp only: u' unat_used) simp
  then have "sint (?r + 1) = int (unat (?r + 1))" by (rule sint_small)
  then show "sint (?r + 1) = int (unat ?r) + 1"
    by (simp only: u)
qed

lemma bit_index_less: "unat ((b :: u32) AND bits_per_int_mask) < 32"
proof -
  have "b AND bits_per_int_mask = take_bit 5 b"
    by (simp add: bitset_consts take_bit_eq_mask mask_eq_exp_minus_1)
  moreover have "take_bit 5 (unat b) < 2 ^ 5"
    by (rule take_bit_nat_less_exp)
  ultimately show ?thesis
    by (simp add: unsigned_take_bit_eq)
qed

lemma bit_single: "k < 32 \<Longrightarrow> bit (2 ^ k :: u32) n \<longleftrightarrow> n = k"
  by (auto simp add: bit_exp_iff)

lemma and_zero_bits:
  assumes "((w :: u32) AND m) = 0"
  shows "\<not> (bit w n \<and> bit m n)"
proof -
  have "\<not> bit (w AND m) n" using assms by simp
  then show ?thesis by (simp add: bit_and_iff)
qed

lemma mask_clear_iff: "k < 32 \<Longrightarrow> ((w :: u32) AND push_bit k 1) = 0 \<longleftrightarrow> \<not> bit w k"
proof -
  assume k: "k < 32"
  have "bit (w AND push_bit k 1) n \<longleftrightarrow> n = k \<and> bit w k" for n
    using k by (auto simp add: bit_and_iff bit_single)
  then show ?thesis
    using k by (auto simp add: bit_eq_iff [where ?'a = "32 word"])
qed

lemma or_and_not_mask: "((w :: u32) AND m) = 0 \<Longrightarrow> (w OR m) AND NOT m = w"
  using and_zero_bits [of w m]
  by (intro bit_eqI) (auto simp add: bit_and_iff bit_or_iff bit_not_iff)

lemma or_mask_id: "k < 32 \<Longrightarrow> ((w :: u32) AND push_bit k 1) \<noteq> 0 \<Longrightarrow> w OR push_bit k 1 = w"
proof -
  assume k: "k < 32" and "(w AND push_bit k 1) \<noteq> 0"
  then have "bit w k" using mask_clear_iff [of k w] by blast
  then show ?thesis
    using k by (intro bit_eqI) (auto simp add: bit_or_iff bit_single)
qed

lemma and_not_mask_clear: "((w :: u32) AND NOT m) AND m = 0"
  by (intro bit_eqI) (auto simp add: bit_and_iff bit_not_iff)

lemma and_not_mask_id: "((w :: u32) AND m) = 0 \<Longrightarrow> w AND NOT m = w"
  using and_zero_bits [of w m]
  by (intro bit_eqI) (auto simp add: bit_and_iff bit_not_iff dest: bit_imp_le_length)

lemma popcount_upto_or:
  "k < 32 \<Longrightarrow> \<not> bit w k \<Longrightarrow>
   popcount_upto n (w OR push_bit k 1) = popcount_upto n w + (if k < n then 1 else 0)"
  by (induction n) (auto simp add: bit_or_iff bit_single less_Suc_eq)

lemma popcount_upto_and_not:
  "k < 32 \<Longrightarrow> bit w k \<Longrightarrow>
   popcount_upto n (w AND NOT (push_bit k 1)) + (if k < n then 1 else 0) = popcount_upto n w"
  by (induction n) (auto simp add: bit_and_iff bit_not_iff bit_single less_Suc_eq dest: bit_imp_le_length)

section \<open>What a call that returns has done\<close>

lemma atomic_fetch_or_Inr:
  "atomic_fetch_or buffer i m = Inr (prev, buffer1) \<longleftrightarrow>
     i < length buffer \<and> prev = buffer ! i \<and> buffer1 = buffer[i := buffer ! i OR m]"
  by (auto simp add: atomic_defs)

lemma atomic_fetch_bitmap:
  "atomic_fetch_or (header # bitmap) (Suc i) m =
     (if i < length bitmap then Inr (bitmap ! i, header # bitmap[i := bitmap ! i OR m])
      else Inl OutOfBounds)"
  "atomic_fetch_and (header # bitmap) (Suc i) m =
     (if i < length bitmap then Inr (bitmap ! i, header # bitmap[i := bitmap ! i AND m])
      else Inl OutOfBounds)"
  by (simp_all add: atomic_defs)

lemma failed_or_keeps_buffer:
  assumes "i < length (buffer :: buffer)"
    and "(buffer ! i AND push_bit (unat (b AND bits_per_int_mask)) 1) \<noteq> 0"
  shows "buffer[i := buffer ! i OR push_bit (unat (b AND bits_per_int_mask)) 1] = buffer"
  using assms or_mask_id [OF bit_index_less, of "buffer ! i" b]
  by (simp add: list_update_same_conv)

lemma acquire_bounded_loop_claims:
  assumes "acquire_bounded_loop buffer bit_bound word_count state_bit_used bit' = Some y"
  shows "\<forall>r buffer'. y = Inr (r, buffer') \<longrightarrow>
           (\<exists>b. r = (sint b, sint (state_bit_used + 1)) \<and> claims_bit buffer b buffer')"
  using assms
proof (induct rule: acquire_bounded_loop.raw_induct [rotated 1, consumes 1, case_names step])
  case (step loop buffer bit_bound word_count state_bit_used bit' y)
  note IH = step(1) and prems = step(2)
  show ?case
  proof (cases "atomic_fetch_or buffer (unat (drop_bit bits_per_int_lg2 bit') + 1)
                  (push_bit (unat (bit' AND bits_per_int_mask)) 1)")
    case (Inl e)
    with prems show ?thesis by (auto simp add: Let_def)
  next
    case (Inr pb)
    obtain prev buffer1 where pb: "pb = (prev, buffer1)" by (cases pb)
    note f = Inr [unfolded pb atomic_fetch_or_Inr]
    show ?thesis
    proof (cases "(prev AND push_bit (unat (bit' AND bits_per_int_mask)) 1) = 0")
      case True
      with prems Inr pb f show ?thesis
        by (auto simp add: Let_def claims_bit_def)
    next
      case False
      have same: "buffer1 = buffer"
        using f False failed_or_keeps_buffer [of _ buffer bit'] by simp
      from prems Inr pb False obtain b' where
        "loop buffer1 bit_bound word_count state_bit_used b' = Some y"
        by (simp add: Let_def)
      from IH [OF this] same show ?thesis by simp
    qed
  qed
qed

lemma acquire_bounded_lg2_loop_claims:
  assumes "acquire_bounded_lg2_loop buffer word_count state_bit_used bit' = Some y"
  shows "\<forall>r buffer'. y = Inr (r, buffer') \<longrightarrow>
           (\<exists>b. r = (sint b, sint (state_bit_used + 1)) \<and> claims_bit buffer b buffer')"
  using assms
proof (induct rule: acquire_bounded_lg2_loop.raw_induct [rotated 1, consumes 1, case_names step])
  case (step loop buffer word_count state_bit_used bit' y)
  note IH = step(1) and prems = step(2)
  show ?case
  proof (cases "atomic_fetch_or buffer (unat (drop_bit bits_per_int_lg2 bit') + 1)
                  (push_bit (unat (bit' AND bits_per_int_mask)) 1)")
    case (Inl e)
    with prems show ?thesis by (auto simp add: Let_def)
  next
    case (Inr pb)
    obtain prev buffer1 where pb: "pb = (prev, buffer1)" by (cases pb)
    note f = Inr [unfolded pb atomic_fetch_or_Inr]
    show ?thesis
    proof (cases "(prev AND push_bit (unat (bit' AND bits_per_int_mask)) 1) = 0")
      case True
      with prems Inr pb f show ?thesis
        by (auto simp add: Let_def claims_bit_def)
    next
      case False
      have same: "buffer1 = buffer"
        using f False failed_or_keeps_buffer [of _ buffer bit'] by simp
      from prems Inr pb False obtain b' where
        "loop buffer1 word_count state_bit_used b' = Some y"
        by (simp add: Let_def)
      from IH [OF this] same show ?thesis by simp
    qed
  qed
qed

text \<open>What a call of \<open>acquire_bounded\<close> that returns a pair has done.\<close>

lemma acquire_bounded_cases:
  assumes "acquire_bounded (header # bitmap) bit_bound bit' state_header
             = Some (Inr (r, buffer'))"
  shows "(r = (- 3, - 3) \<or> r = (- 2, - 2) \<or> r = (- 1, - 1)) \<and> buffer' = header # bitmap
       \<or> bit_bound \<le> max_bit_count \<and> (state_header AND NOT state_header_mask) = 0
         \<and> state_header = (header AND state_header_mask)
         \<and> (header AND state_used_mask) < bit_bound
         \<and> (\<exists>b. r = (sint b, sint ((header AND state_used_mask) + 1))
                \<and> claims_bit ((header + 1) # bitmap) b buffer')"
proof (cases "max_bit_count < bit_bound \<or> (state_header AND NOT state_header_mask) \<noteq> 0
                \<or> bit_bound \<le> bit'")
  case True
  with assms show ?thesis by (auto simp add: acquire_bounded_def)
next
  case args: False
  show ?thesis
  proof (cases "state_header \<noteq> (header AND state_header_mask)
                  \<or> bit_bound \<le> (header AND state_used_mask)")
    case True
    with assms args show ?thesis
      by (auto simp add: acquire_bounded_def header_add_sub Let_def split: if_splits)
  next
    case False
    with assms args have
      "acquire_bounded_loop ((header + 1) # bitmap) bit_bound
         (drop_bit bits_per_int_lg2 bit_bound) (header AND state_used_mask) bit'
       = Some (Inr (r, buffer'))"
      by (simp add: acquire_bounded_def header_add_sub Let_def)
    from acquire_bounded_loop_claims [OF this] args False show ?thesis
      by (auto simp add: not_less not_le)
  qed
qed

lemma acquire_bounded_lg2_cases:
  assumes "acquire_bounded_lg2 (header # bitmap) bit_bound_lg2 bit' state_header
             = Some (Inr (r, buffer'))"
  shows "(r = (- 3, - 3) \<or> r = (- 2, - 2) \<or> r = (- 1, - 1)) \<and> buffer' = header # bitmap
       \<or> bit_bound_lg2 \<le> max_bit_count_lg2 \<and> (state_header AND NOT state_header_mask) = 0
         \<and> state_header = (header AND state_header_mask)
         \<and> (header AND state_used_mask) < push_bit (unat bit_bound_lg2) 1
         \<and> (\<exists>b. r = (sint b, sint ((header AND state_used_mask) + 1))
                \<and> claims_bit ((header + 1) # bitmap) b buffer')"
proof (cases "max_bit_count_lg2 < bit_bound_lg2
                \<or> (state_header AND NOT state_header_mask) \<noteq> 0
                \<or> push_bit (unat bit_bound_lg2) 1 < bit'")
  case True
  with assms show ?thesis by (auto simp add: acquire_bounded_lg2_def Let_def)
next
  case args: False
  show ?thesis
  proof (cases "state_header \<noteq> (header AND state_header_mask)
                  \<or> push_bit (unat bit_bound_lg2) 1 \<le> (header AND state_used_mask)")
    case True
    with assms args show ?thesis
      by (auto simp add: acquire_bounded_lg2_def header_add_sub Let_def split: if_splits)
  next
    case False
    with assms args have
      "acquire_bounded_lg2_loop ((header + 1) # bitmap)
         (drop_bit bits_per_int_lg2 (push_bit (unat bit_bound_lg2) 1))
         (header AND state_used_mask) bit'
       = Some (Inr (r, buffer'))"
      by (simp add: acquire_bounded_lg2_def header_add_sub Let_def)
    from acquire_bounded_lg2_loop_claims [OF this] args False show ?thesis
      by (auto simp add: not_less not_le)
  qed
qed

lemma release_eq:
  "release (header # bitmap) bit' state_header =
     (if state_header \<noteq> (state_header_mask AND header) then Inr (- 2, header # bitmap)
      else if \<not> unat (drop_bit bits_per_int_lg2 bit') < length bitmap then Inl OutOfBounds
      else if (bitmap ! unat (drop_bit bits_per_int_lg2 bit')
                 AND push_bit (unat (bit' AND bits_per_int_mask)) 1) = 0
      then Inr (- 1, header # bitmap)
      else Inr (sint ((header AND state_used_mask) - 1),
                (header - 1) # bitmap[unat (drop_bit bits_per_int_lg2 bit') :=
                   bitmap ! unat (drop_bit bits_per_int_lg2 bit')
                     AND NOT (push_bit (unat (bit' AND bits_per_int_mask)) 1)]))"
  by (simp add: release_def atomic_fetch_bitmap header_add_sub Let_def and_not_mask_id
      list_update_same_conv)

section \<open>set\<close>

text \<open>
  Claim C1, evaluated on the code. The claim: with a matching tag and a bit in range,
  \<open>set\<close> fails with AlreadyClaimed (-1) when the bit was already 1, and otherwise
  succeeds, decrementing the used count and returning the new count. The code tests
  \<^verbatim>\<open>!(prev & mask)\<close>, so it does the reverse. On the buffer \<open>[1, 2]\<close> (tag 0, used
  count 1, bit 1 claimed) setting the free bit 0 returns -1 with the bit now set and the
  count still 1, and setting the claimed bit 1 returns 0 with the count decremented.
\<close>

theorem set_returns_minus_one_on_free_bit:
  "set_bitset [1, 2] 0 0 = Inr (- 1, [1, 3]) \<and> set_bitset [1, 2] 1 0 = Inr (0, [0, 2])"
  by (simp add: set_bitset_def bitset_consts atomic_defs)

section \<open>The results of acquire\<close>

text \<open>
  Claim C2, evaluated on the code. The claim: a successful acquire returns a bit with
  \<open>0 \<le> bit < capacity\<close>. \<open>acquire_bounded_lg2\<close> tests \<^verbatim>\<open>bit_bound < bit\<close> where its
  own comment promises \<^verbatim>\<open>(1u << bit_bound_lg2) <= bit\<close>, so the hint 8 passes for a
  capacity of 8: on the zeroed buffer of \<open>buffer_bound_lg2 3 = 2\<close> words the call claims
  bit 8 and returns \<open>(8, 1)\<close>.
\<close>

theorem acquire_bounded_lg2_claims_bit_at_bound:
  "buffer_bound_lg2 3 = 2 \<and>
   acquire_bounded_lg2 [0, 0] 3 8 0 = Some (Inr ((8, 1), [1, 256]))"
  by (simp add: buffer_bound_lg2_def acquire_bounded_lg2_def acquire_bounded_lg2_loop.simps
      atomic_defs bitset_consts)

theorem acquire_bounded_lg2_claims_bit_at_bound_witness:
  "\<not> max_bit_count_lg2 < 3 \<and> ((0 :: u32) AND NOT state_header_mask) = 0
   \<and> \<not> push_bit (unat (3 :: u32)) 1 < (8 :: u32)
   \<and> acquire_bounded_lg2 [0, 0] 3 8 0 = Some (Inr ((8, 1), [1, 256]))"
  using acquire_bounded_lg2_claims_bit_at_bound by (simp add: bitset_consts)

section \<open>Tag isolation\<close>

text \<open>
  Claim C5 as stated fails: the argument test of \<open>acquire\<close> comes before the tag test.
  With capacity 8 and the hint 8, a tag that fits the field and differs from the header's
  gets \<open>(-3, -3)\<close>, not \<open>(-2, -2)\<close>.
\<close>

theorem tag_mismatch_after_argument_test:
  "(push_bit 26 1 AND NOT state_header_mask) = 0 \<and>
   push_bit 26 1 \<noteq> ((0 :: u32) AND state_header_mask) \<and>
   acquire_bounded [0, 0] 8 8 (push_bit 26 1) = Some (Inr ((- 3, - 3), [0, 0]))"
  by (simp add: acquire_bounded_def bitset_consts)

text \<open>
  Claim C5, amended: for a buffer with a header word and a tag that fits the tag field but
  differs from the header's tag bits, \<open>acquire_bounded\<close> called with a capacity of at most
  \<open>max_bit_count\<close> and a hint below the capacity, and \<open>acquire_bounded_lg2\<close> called
  with \<open>bit_bound_lg2 \<le> 25\<close> and a hint below \<open>2 ^ bit_bound_lg2\<close>, return
  \<open>(-2, -2)\<close>; \<open>release\<close> and \<open>set\<close> return -2 for every bit; and each call leaves
  the buffer as it found it.
\<close>

theorem tag_mismatch_leaves_buffer:
  assumes "(state_header AND NOT state_header_mask) = 0"
    and "state_header \<noteq> (header AND state_header_mask)"
  shows "(bit_bound \<le> max_bit_count \<and> bit' < bit_bound \<longrightarrow>
            acquire_bounded (header # bitmap) bit_bound bit' state_header
              = Some (Inr ((- 2, - 2), header # bitmap)))
       \<and> (bit_bound_lg2 \<le> max_bit_count_lg2 \<and> bit' < push_bit (unat bit_bound_lg2) 1 \<longrightarrow>
            acquire_bounded_lg2 (header # bitmap) bit_bound_lg2 bit' state_header
              = Some (Inr ((- 2, - 2), header # bitmap)))
       \<and> release (header # bitmap) bit' state_header = Inr (- 2, header # bitmap)
       \<and> set_bitset (header # bitmap) bit' state_header = Inr (- 2, header # bitmap)"
  using assms
  by (auto simp add: acquire_bounded_def acquire_bounded_lg2_def release_def set_bitset_def
      header_add_sub Let_def and.commute)

theorem tag_mismatch_leaves_buffer_witness:
  "acquire_bounded [5, 3] 8 2 (push_bit 26 3) = Some (Inr ((- 2, - 2), [5, 3]))
   \<and> acquire_bounded_lg2 [5, 3] 3 2 (push_bit 26 3) = Some (Inr ((- 2, - 2), [5, 3]))
   \<and> release [5, 3] 2 (push_bit 26 3) = Inr (- 2, [5, 3])
   \<and> set_bitset [5, 3] 2 (push_bit 26 3) = Inr (- 2, [5, 3])"
proof -
  have fits: "((push_bit 26 3 :: u32) AND NOT state_header_mask) = 0"
    by (simp add: bitset_consts)
  have differs: "(push_bit 26 3 :: u32) \<noteq> (5 AND state_header_mask)"
    by (simp add: bitset_consts)
  show ?thesis
    using tag_mismatch_leaves_buffer [OF fits differs, of 8 2 "[3]" 3]
    by (simp add: bitset_consts)
qed

section \<open>Hints out of range\<close>

text \<open>
  Claim C8 as stated fails in its second half: \<open>acquire_bounded_lg2\<close> does not wrap a
  hint beyond the bound into range, it returns the argument error. With a bound of
  \<open>2 ^ 3\<close> the hint 9 gets \<open>(-3, -3)\<close>.
\<close>

theorem acquire_bounded_lg2_rejects_hint:
  "push_bit (unat (3 :: u32)) 1 \<le> (9 :: u32) \<and>
   acquire_bounded_lg2 [0, 0] 3 9 0 = Some (Inr ((- 3, - 3), [0, 0]))"
  by (simp add: acquire_bounded_lg2_def bitset_consts)

text \<open>
  Claim C8, amended: \<open>acquire_bounded\<close> returns \<open>(-3, -3)\<close> for every hint with
  \<open>bit_bound \<le> bit\<close>, and \<open>acquire_bounded_lg2\<close> returns \<open>(-3, -3)\<close> for every hint
  with \<open>2 ^ bit_bound_lg2 < bit\<close>; neither touches the buffer.
\<close>

theorem hint_out_of_range_rejected:
  "(bit_bound \<le> bit' \<longrightarrow>
      acquire_bounded buffer bit_bound bit' state_header = Some (Inr ((- 3, - 3), buffer)))
   \<and> (push_bit (unat bit_bound_lg2) 1 < bit' \<longrightarrow>
      acquire_bounded_lg2 buffer bit_bound_lg2 bit' state_header
        = Some (Inr ((- 3, - 3), buffer)))"
  by (simp add: acquire_bounded_def acquire_bounded_lg2_def)

theorem hint_out_of_range_rejected_witness:
  "(8 :: u32) \<le> 12 \<and> acquire_bounded [0, 0] 8 12 0 = Some (Inr ((- 3, - 3), [0, 0]))
   \<and> push_bit (unat (3 :: u32)) 1 < (12 :: u32)
   \<and> acquire_bounded_lg2 [0, 0] 3 12 0 = Some (Inr ((- 3, - 3), [0, 0]))"
  using hint_out_of_range_rejected [of 8 12 "[0, 0]" 0 3] by simp

section \<open>Releasing twice\<close>

text \<open>
  Claim C6 as stated fails on a buffer whose bit is claimed while the used count is 0
  (the state \<open>set\<close> leaves behind on a zeroed buffer): the decrement borrows from the
  tag field, the first release returns -1, and the second one fails on the tag with -2.
\<close>

theorem release_twice_with_zero_count:
  "bit_claimed [0, 8] 3 \<and> tag_bits [0, 8] = 0 \<and>
   release [0, 8] 3 0 = Inr (- 1, [- 1, 0]) \<and> release [- 1, 0] 3 0 = Inr (- 2, [- 1, 0])"
  by (simp add: bit_claimed_def tag_bits_def release_def atomic_defs bitset_consts)

text \<open>
  Claim C6, amended: when bit \<open>b\<close> is claimed, the tag matches and the used count is at
  least 1, the first release of \<open>b\<close> returns the used count decremented by one and
  stores it, and a second release of \<open>b\<close> returns -1 and leaves the buffer as the first
  release left it.
\<close>

theorem release_twice:
  assumes tag: "state_header = tag_bits buffer"
    and claimed: "bit_claimed buffer bit'"
    and used: "0 < used_count buffer"
  shows "\<exists>buffer1.
           release buffer bit' state_header = Inr (int (used_count buffer) - 1, buffer1)
           \<and> used_count buffer1 = used_count buffer - 1
           \<and> release buffer1 bit' state_header = Inr (- 1, buffer1)"
proof -
  let ?i = "unat (drop_bit bits_per_int_lg2 bit')"
  let ?m = "push_bit (unat (bit' AND bits_per_int_mask)) 1 :: u32"
  from claimed obtain header bitmap where buffer: "buffer = header # bitmap"
    by (cases buffer) (simp_all add: bit_claimed_def)
  from claimed have i: "?i < length bitmap" and set: "(bitmap ! ?i AND ?m) \<noteq> 0"
    using mask_clear_iff [OF bit_index_less, of "bitmap ! ?i" bit']
    by (simp_all add: buffer bit_claimed_def)
  from used have nz: "(header AND state_used_mask) \<noteq> 0"
    by (auto simp add: buffer used_count_def)
  from tag have tag': "state_header = (state_header_mask AND header)"
    by (simp add: buffer tag_bits_def and.commute)
  let ?buffer1 = "(header - 1) # bitmap[?i := bitmap ! ?i AND NOT ?m]"
  have first: "release buffer bit' state_header
                 = Inr (int (used_count buffer) - 1, ?buffer1)"
    using i set tag' by (simp add: buffer release_eq used_dec(4) [OF nz] used_count_def)
  have count: "used_count ?buffer1 = used_count buffer - 1"
    by (simp add: buffer used_count_def used_dec(1,3) [OF nz])
  have "state_header = (state_header_mask AND (header - 1))"
    using tag' used_dec(2) [OF nz] by (simp add: and.commute)
  then have second: "release ?buffer1 bit' state_header = Inr (- 1, ?buffer1)"
    using i by (simp add: release_eq and_not_mask_clear)
  from first count second show ?thesis by blast
qed

theorem release_twice_witness:
  "\<exists>buffer1. release [1, 8] 3 0 = Inr (0, buffer1) \<and> used_count buffer1 = 0
             \<and> release buffer1 3 0 = Inr (- 1, buffer1)"
proof -
  have "(0 :: u32) = tag_bits [1, 8]" and "bit_claimed [1, 8] 3" and "0 < used_count [1, 8]"
    by (simp_all add: tag_bits_def bit_claimed_def used_count_def bitset_consts)
  from release_twice [OF this] show ?thesis
    by (simp add: used_count_def bitset_consts)
qed

section \<open>Release after acquire\<close>

lemma or_mask_and: "k < 32 \<Longrightarrow> (((w :: u32) OR push_bit k 1) AND push_bit k 1) \<noteq> 0"
  using mask_clear_iff [of k "w OR push_bit k 1"] by (simp add: bit_or_iff bit_single)

lemma claims_bit_Cons:
  assumes "claims_bit (header # bitmap) b buffer'"
  shows "unat (drop_bit bits_per_int_lg2 b) < length bitmap"
    and "(bitmap ! unat (drop_bit bits_per_int_lg2 b)
           AND push_bit (unat (b AND bits_per_int_mask)) 1) = 0"
    and "buffer' = header # bitmap[unat (drop_bit bits_per_int_lg2 b) :=
           bitmap ! unat (drop_bit bits_per_int_lg2 b)
             OR push_bit (unat (b AND bits_per_int_mask)) 1]"
  using assms by (simp_all add: claims_bit_def Let_def)

text \<open>
  Claim C7 as stated fails in its second half: from a buffer of capacity 8 whose eight
  bits are set while the used count is 0, \<open>acquire_bounded\<close> claims bit 8, outside the
  capacity; release restores the buffer, but an acquire with the hint 8 is rejected
  with \<open>(-3, -3)\<close>.
\<close>

theorem acquire_hint_of_released_bit_rejected:
  "acquire_bounded [0, 255] 8 0 0 = Some (Inr ((8, 1), [1, 511])) \<and>
   release [1, 511] 8 0 = Inr (0, [0, 255]) \<and>
   acquire_bounded [0, 255] 8 8 0 = Some (Inr ((- 3, - 3), [0, 255]))"
  by code_simp

text \<open>
  Claim C7, amended: when \<open>acquire_bounded\<close> succeeds from a buffer returning bit \<open>b\<close>
  and the count \<open>c\<close>, releasing \<open>b\<close> with the same tag returns \<open>c - 1\<close> and restores
  the buffer exactly; and if \<open>b\<close> is below the capacity, an acquire on the restored
  buffer with the hint \<open>b\<close> returns \<open>b\<close> again.
\<close>

theorem release_after_acquire:
  assumes acq: "acquire_bounded buffer bit_bound bit' state_header
                  = Some (Inr ((b, c), buffer'))"
    and success: "0 \<le> b"
  shows "release buffer' (word_of_int b) state_header = Inr (c - 1, buffer)
       \<and> (word_of_int b < bit_bound \<longrightarrow>
            acquire_bounded buffer bit_bound (word_of_int b) state_header
              = Some (Inr ((b, c), buffer')))"
proof -
  obtain header bitmap where buffer: "buffer = header # bitmap"
  proof (cases buffer)
    case Nil
    with acq success show ?thesis
      by (simp add: acquire_bounded_def atomic_defs Let_def split: if_splits)
  qed
  let ?used = "header AND state_used_mask"
  from acquire_bounded_cases [OF acq [unfolded buffer]] success
  obtain bw where bound: "bit_bound \<le> max_bit_count"
    and valid: "(state_header AND NOT state_header_mask) = 0"
    and tag: "state_header = (header AND state_header_mask)"
    and free: "?used < bit_bound"
    and b: "b = sint bw" and c: "c = sint (?used + 1)"
    and claims: "claims_bit ((header + 1) # bitmap) bw buffer'"
    by auto
  let ?i = "unat (drop_bit bits_per_int_lg2 bw)"
  let ?m = "push_bit (unat (bw AND bits_per_int_mask)) 1 :: u32"
  note cl = claims_bit_Cons [OF claims]
  note inc = used_inc [OF free bound]
  have bw: "word_of_int b = bw" by (simp add: b)
  have "unat ?used < 2147483648"
    using unat_used [of header] by (simp only:) simp
  then have "sint ?used = int (unat ?used)" by (rule sint_small)
  then have ret: "sint ((header + 1 AND state_used_mask) - 1) = c - 1"
    by (simp add: inc c)
  have tag1: "state_header = (state_header_mask AND (header + 1))"
    using tag inc(2) by (simp add: and.commute)
  have set: "((bitmap ! ?i OR ?m) AND ?m) \<noteq> 0"
    using or_mask_and [OF bit_index_less] .
  have restored: "bitmap[?i := (bitmap ! ?i OR ?m) AND NOT ?m] = bitmap"
    using cl(1,2) by (simp add: or_and_not_mask list_update_same_conv)
  have rel: "release buffer' bw state_header = Inr (c - 1, buffer)"
    using cl(1) tag1 set ret restored
    by (simp add: cl(3) buffer release_eq)
  have again: "acquire_bounded buffer bit_bound bw state_header
                 = Some (Inr ((b, c), buffer'))" if "bw < bit_bound"
    using that bound valid tag free cl(1,2)
    by (simp add: buffer acquire_bounded_def header_add_sub Let_def not_less not_le
        acquire_bounded_loop.simps [of _ _ _ _ bw] atomic_fetch_bitmap b c cl(3))
  from rel again show ?thesis by (simp add: bw)
qed

theorem release_after_acquire_witness:
  "release [3, 7] 2 0 = Inr (2, [2, 3]) \<and>
   acquire_bounded [2, 3] 8 2 0 = Some (Inr ((2, 3), [3, 7]))"
proof -
  have "acquire_bounded [2, 3] 8 0 0 = Some (Inr ((2, 3), [3, 7]))"
    by code_simp
  from release_after_acquire [OF this] show ?thesis by simp
qed

section \<open>The quiescent invariant\<close>

lemma popcount_set:
  "k < 32 \<Longrightarrow> ((w :: u32) AND push_bit k 1) = 0 \<Longrightarrow>
   popcount (w OR push_bit k 1) = Suc (popcount w)"
  using popcount_upto_or [of k w 32] mask_clear_iff [of k w] by (simp add: popcount_def)

lemma popcount_clear:
  "k < 32 \<Longrightarrow> ((w :: u32) AND push_bit k 1) \<noteq> 0 \<Longrightarrow>
   Suc (popcount (w AND NOT (push_bit k 1))) = popcount w"
  using popcount_upto_and_not [of k w 32] mask_clear_iff [of k w] by (simp add: popcount_def)

lemma sum_list_map_update:
  fixes f :: "'a \<Rightarrow> nat"
  shows "i < length xs \<Longrightarrow>
    sum_list (map f (xs[i := v])) + f (xs ! i) = sum_list (map f xs) + f v"
proof (induction xs arbitrary: i)
  case Nil
  then show ?case by simp
next
  case (Cons x xs)
  then show ?case by (cases i) (simp_all add: add.assoc)
qed

lemma quiescent_Cons:
  "quiescent capacity (header # bitmap) \<longleftrightarrow>
     unat (header AND state_used_mask) = sum_list (map popcount bitmap)
     \<and> unat (header AND state_used_mask) \<le> unat capacity"
  by (simp add: quiescent_def used_count_def bitmap_popcount_def)

lemma unat_exp: "k < 32 \<Longrightarrow> unat (2 ^ k :: u32) = 2 ^ k"
proof -
  assume k: "k < 32"
  then have "(2::nat) ^ k < 2 ^ 32" by (intro power_strict_increasing) simp_all
  then have t: "take_bit 32 ((2::nat) ^ k) = 2 ^ k" by (rule take_bit_nat_eq_self)
  have "unat (push_bit k 1 :: u32) = take_bit LENGTH(32) (push_bit k (unat (1 :: u32)))"
    by (rule unsigned_push_bit_eq)
  with t show ?thesis by (simp add: push_bit_eq_mult)
qed

lemma lg2_bound:
  assumes "bit_bound_lg2 \<le> max_bit_count_lg2"
  shows "push_bit (unat bit_bound_lg2) 1 \<le> max_bit_count"
proof -
  have k: "unat bit_bound_lg2 \<le> 25"
    using assms by (simp add: word_le_nat_alt max_bit_count_lg2_def)
  then have "(2 :: nat) ^ unat bit_bound_lg2 \<le> 2 ^ 25"
    by (intro power_increasing) simp_all
  moreover have "unat (2 ^ unat bit_bound_lg2 :: u32) = 2 ^ unat bit_bound_lg2"
    using k by (intro unat_exp) simp
  moreover have "unat (2 ^ 25 :: u32) = 2 ^ 25"
    by (intro unat_exp) simp
  ultimately have "(2 ^ unat bit_bound_lg2 :: u32) \<le> 2 ^ 25"
    by (simp only: word_le_nat_alt)
  then show ?thesis by (simp add: bitset_consts)
qed

lemma claim_keeps_quiescent:
  assumes q: "quiescent capacity (header # bitmap)"
    and free: "(header AND state_used_mask) < capacity"
    and bound: "capacity \<le> max_bit_count"
    and claims: "claims_bit ((header + 1) # bitmap) b buffer'"
  shows "quiescent capacity buffer'"
proof -
  let ?i = "unat (drop_bit bits_per_int_lg2 b)"
  let ?m = "push_bit (unat (b AND bits_per_int_mask)) 1 :: u32"
  note cl = claims_bit_Cons [OF claims]
  note inc = used_inc [OF free bound]
  have "sum_list (map popcount (bitmap[?i := bitmap ! ?i OR ?m])) + popcount (bitmap ! ?i)
          = sum_list (map popcount bitmap) + popcount (bitmap ! ?i OR ?m)"
    using cl(1) by (rule sum_list_map_update)
  then have pop: "sum_list (map popcount (bitmap[?i := bitmap ! ?i OR ?m]))
                    = Suc (sum_list (map popcount bitmap))"
    using popcount_set [OF bit_index_less cl(2)] by simp
  have "unat (header AND state_used_mask) < unat capacity"
    using free by (simp add: word_less_nat_alt)
  with q pop show ?thesis
    by (simp add: cl(3) quiescent_Cons inc(1,3))
qed

text \<open>
  Claim C3: from a buffer in which the used count equals the number of bits set in the
  bitmap and is at most the capacity, every call of \<open>acquire_bounded\<close>, of
  \<open>acquire_bounded_lg2\<close> (whose capacity is \<open>2 ^ bit_bound_lg2\<close>) and of \<open>release\<close> that
  returns, whatever it returns, leaves a buffer with the same property.
\<close>

theorem quiescent_preserved:
  assumes q: "quiescent capacity buffer"
  shows "(acquire_bounded buffer capacity bit' state_header = Some (Inr (r, buffer1))
            \<longrightarrow> quiescent capacity buffer1)
       \<and> (capacity = push_bit (unat bit_bound_lg2) 1
          \<and> acquire_bounded_lg2 buffer bit_bound_lg2 bit' state_header
               = Some (Inr (r, buffer2))
            \<longrightarrow> quiescent capacity buffer2)
       \<and> (release buffer bit' state_header = Inr (n, buffer3)
            \<longrightarrow> quiescent capacity buffer3)"
proof -
  from q obtain header bitmap where buffer: "buffer = header # bitmap"
    by (cases buffer) (simp_all add: quiescent_def)
  note q' = q [unfolded buffer]
  have bounded: "quiescent capacity buffer1"
    if "acquire_bounded buffer capacity bit' state_header = Some (Inr (r, buffer1))"
    using acquire_bounded_cases [OF that [unfolded buffer]] q'
    by (auto intro: claim_keeps_quiescent)
  have lg2: "quiescent capacity buffer2"
    if "capacity = push_bit (unat bit_bound_lg2) 1"
      and "acquire_bounded_lg2 buffer bit_bound_lg2 bit' state_header
             = Some (Inr (r, buffer2))"
  proof -
    from acquire_bounded_lg2_cases [OF that(2) [unfolded buffer]]
    consider "buffer2 = header # bitmap"
      | b where "bit_bound_lg2 \<le> max_bit_count_lg2"
          "(header AND state_used_mask) < push_bit (unat bit_bound_lg2) 1"
          "claims_bit ((header + 1) # bitmap) b buffer2"
      by blast
    then show ?thesis
    proof cases
      case 1
      with q' show ?thesis by simp
    next
      case 2
      from q' 2(2) lg2_bound [OF 2(1)] 2(3) show ?thesis
        unfolding that(1) by (rule claim_keeps_quiescent)
    qed
  qed
  have rel: "quiescent capacity buffer3"
    if r: "release buffer bit' state_header = Inr (n, buffer3)"
  proof -
    let ?i = "unat (drop_bit bits_per_int_lg2 bit')"
    let ?m = "push_bit (unat (bit' AND bits_per_int_mask)) 1 :: u32"
    show ?thesis
    proof (cases "buffer3 = buffer")
      case True
      with q show ?thesis by simp
    next
      case False
      with r have i: "?i < length bitmap" and set: "(bitmap ! ?i AND ?m) \<noteq> 0"
        and buffer3: "buffer3 = (header - 1) # bitmap[?i := bitmap ! ?i AND NOT ?m]"
        by (auto simp add: buffer release_eq split: if_splits)
      have "sum_list (map popcount (bitmap[?i := bitmap ! ?i AND NOT ?m]))
              + popcount (bitmap ! ?i)
            = sum_list (map popcount bitmap) + popcount (bitmap ! ?i AND NOT ?m)"
        using i by (rule sum_list_map_update)
      then have pop: "Suc (sum_list (map popcount (bitmap[?i := bitmap ! ?i AND NOT ?m])))
                        = sum_list (map popcount bitmap)"
        using popcount_clear [OF bit_index_less set] by simp
      with q' have "unat (header AND state_used_mask) \<noteq> 0"
        unfolding quiescent_Cons by linarith
      then have nz: "(header AND state_used_mask) \<noteq> 0"
        by (simp add: unat_eq_0)
      have u: "unat ((header - 1) AND state_used_mask)
                 = unat (header AND state_used_mask) - 1"
        by (simp only: used_dec(1,3) [OF nz])
      show ?thesis
        unfolding buffer3 quiescent_Cons u
        using q' [unfolded quiescent_Cons] pop by linarith
    qed
  qed
  from bounded lg2 rel show ?thesis by blast
qed

theorem quiescent_preserved_witness:
  "quiescent 8 [3, 7] \<and> quiescent 8 [1, 2]"
proof -
  have q: "quiescent 8 [2, 3]" by code_simp
  have a: "acquire_bounded [2, 3] 8 0 0 = Some (Inr ((2, 3), [3, 7]))" by code_simp
  have b: "acquire_bounded_lg2 [2, 3] 3 0 0 = Some (Inr ((2, 3), [3, 7]))" by code_simp
  have c: "release [2, 3] 0 0 = Inr (1, [1, 2])" by code_simp
  from quiescent_preserved [OF q, of 0 0 "(2, 3)" "[3, 7]" 3 "[3, 7]" 1 "[1, 2]"] a b c
  show ?thesis by simp
qed

section \<open>The two acquire variants agree\<close>

lemma countr_one_upto_le: "countr_one_upto n w \<le> n"
  by (induction n arbitrary: w) simp_all

lemma countr_one_upto_full:
  "countr_one_upto n w = n \<Longrightarrow> i < n \<Longrightarrow> bit w i"
proof (induction n arbitrary: w i)
  case 0
  then show ?case by simp
next
  case (Suc n)
  from Suc.prems(1) have b0: "bit w 0" and rest: "countr_one_upto n (drop_bit 1 w) = n"
    by (simp_all split: if_splits)
  show ?case
  proof (cases i)
    case 0
    with b0 show ?thesis by simp
  next
    case (Suc i')
    with Suc.prems(2) have "i' < n" by simp
    from Suc.IH [OF rest this] show ?thesis
      by (simp add: bit_drop_bit_eq \<open>i = Suc i'\<close>)
  qed
qed

lemma countr_one_less:
  assumes "prev \<noteq> - 1"
  shows "countr_one prev < 32"
proof (rule ccontr)
  assume "\<not> countr_one prev < 32"
  with countr_one_upto_le [of 32 prev] have "countr_one_upto 32 prev = 32"
    by (simp add: countr_one_def)
  then have "bit prev i" if "i < 32" for i
    using that by (rule countr_one_upto_full)
  then have "prev = - 1"
    by (intro bit_eqI) (simp add: bit_simps)
  with assms show False by contradiction
qed

lemma drop_bit_mono:
  fixes a b :: u32
  assumes "a \<le> b"
  shows "drop_bit n a \<le> drop_bit n b"
proof -
  have "unat a div 2 ^ n \<le> unat b div 2 ^ n"
    using assms by (intro div_le_mono) (simp add: word_le_nat_alt)
  then have "drop_bit n (unat a) \<le> drop_bit n (unat b)"
    by (simp only: drop_bit_eq_div)
  then show ?thesis
    by (simp only: word_le_nat_alt unat_drop_bit_eq)
qed

lemma small_high_bits:
  assumes "c < 32"
  shows "\<not> bit (of_nat c :: u32) (n + 5)"
proof -
  have "(2 :: nat) ^ 5 \<le> 2 ^ (n + 5)"
    by (intro power_increasing) simp_all
  with assms have "c < 2 ^ (n + 5)" by simp
  then have "c div 2 ^ (n + 5) = 0" by simp
  then have "\<not> bit c (n + 5)" by (simp add: bit_iff_odd)
  then show ?thesis by (simp add: bit_of_nat_iff)
qed

lemma low_bits_drop:
  "\<not> bit ((x :: u32) AND bits_per_int_mask) (n + 5)"
proof -
  have m: "bits_per_int_mask = mask 5"
    by (simp add: bitset_consts mask_eq_exp_minus_1)
  show ?thesis unfolding m by (simp add: bit_and_iff bit_mask_iff)
qed

lemma word_index_same:
  assumes "c < 32"
  shows "drop_bit 5 (push_bit 5 (drop_bit 5 (b :: u32)) OR of_nat c) = drop_bit 5 b"
proof (rule bit_eqI)
  fix n
  show "bit (drop_bit 5 (push_bit 5 (drop_bit 5 b) OR of_nat c)) n = bit (drop_bit 5 b) n"
    using small_high_bits [OF assms, of n]
    by (auto simp add: bit_drop_bit_eq bit_or_iff bit_push_bit_iff add.commute
        dest: bit_imp_le_length)
qed

lemma acquire_bounded_lg2_loop_unfold:
  "acquire_bounded_lg2_loop buffer word_count state_bit_used bit' =
     (let i = unat (drop_bit bits_per_int_lg2 bit') + 1;
          m = push_bit (unat (bit' AND bits_per_int_mask)) 1
      in if \<not> i < length buffer then Some (Inl OutOfBounds)
         else if (buffer ! i AND m) = 0
         then Some (Inr ((sint bit', sint (state_bit_used + 1)), buffer[i := buffer ! i OR m]))
         else acquire_bounded_lg2_loop buffer word_count state_bit_used
                (next_bit_lg2 word_count bit' (buffer ! i)))"
proof -
  let ?i = "unat (drop_bit bits_per_int_lg2 bit') + 1"
  show ?thesis
  proof (cases "?i < length buffer")
    case False
    then show ?thesis
      by (subst acquire_bounded_lg2_loop.simps) (simp add: atomic_defs Let_def)
  next
    case True
    then show ?thesis
      using failed_or_keeps_buffer [OF True, of bit']
      by (subst acquire_bounded_lg2_loop.simps)
        (simp add: atomic_defs Let_def next_bit_lg2_def)
  qed
qed

lemma acquire_bounded_loop_unfold:
  "acquire_bounded_loop buffer bit_bound word_count state_bit_used bit' =
     (let i = unat (drop_bit bits_per_int_lg2 bit') + 1;
          m = push_bit (unat (bit' AND bits_per_int_mask)) 1
      in if \<not> i < length buffer then Some (Inl OutOfBounds)
         else if (buffer ! i AND m) = 0
         then Some (Inr ((sint bit', sint (state_bit_used + 1)), buffer[i := buffer ! i OR m]))
         else acquire_bounded_loop buffer bit_bound word_count state_bit_used
                (next_bit_bounded bit_bound word_count bit' (buffer ! i)))"
proof -
  let ?i = "unat (drop_bit bits_per_int_lg2 bit') + 1"
  show ?thesis
  proof (cases "?i < length buffer")
    case False
    then show ?thesis
      by (subst acquire_bounded_loop.simps) (simp add: atomic_defs Let_def)
  next
    case True
    then show ?thesis
      using failed_or_keeps_buffer [OF True, of bit']
      by (subst acquire_bounded_loop.simps)
        (simp add: atomic_defs Let_def next_bit_bounded_def)
  qed
qed

lemma nat_high_bit:
  fixes a :: nat
  assumes "a < 2 ^ m" and "m \<le> n"
  shows "\<not> bit a n"
proof -
  have "(2 :: nat) ^ m \<le> 2 ^ n"
    using assms(2) by (intro power_increasing) simp_all
  with assms(1) have "a < 2 ^ n" by (rule less_le_trans)
  then have "a div 2 ^ n = 0" by simp
  then show ?thesis by (simp add: bit_iff_odd)
qed

lemma word_index_low: "drop_bit 5 ((x :: u32) AND bits_per_int_mask) = 0"
proof (rule bit_eqI)
  fix n
  have "\<not> bit (x AND bits_per_int_mask) (5 + n)"
    using low_bits_drop [of x n] by (simp add: add.commute)
  then have "\<not> bit (drop_bit 5 (x AND bits_per_int_mask)) n"
    by (simp only: bit_drop_bit_eq o_apply not_False_eq_True)
  then show "bit (drop_bit 5 (x AND bits_per_int_mask)) n = bit (0 :: u32) n"
    by simp
qed

lemma word_index_next:
  assumes "y < drop_bit 5 (bit_bound :: u32)"
  shows "drop_bit 5 (push_bit 5 y OR (x AND bits_per_int_mask)) = y"
proof -
  have "unat y < unat bit_bound div 2 ^ 5"
    using assms
    by (simp only: word_less_nat_alt unat_drop_bit_eq drop_bit_eq_div [where ?'a = nat])
  moreover have "unat bit_bound < 2 ^ 32" using unsigned_less [of bit_bound] by simp
  ultimately have "unat y < 2 ^ 27" by simp
  then have "\<not> bit (unat y) n" if "27 \<le> n" for n
    using that by (rule nat_high_bit)
  then have "\<not> bit y n" if "27 \<le> n" for n
    using that by (simp add: bit_unsigned_iff)
  then have hi: "n < 27" if "bit y n" for n
    using that by (cases "n < 27") (simp_all add: not_less)
  have "drop_bit 5 (push_bit 5 y) = y"
    by (rule bit_eqI) (auto simp add: bit_drop_bit_eq bit_push_bit_iff dest: hi)
  moreover have "drop_bit 5 (push_bit 5 y OR (x AND bits_per_int_mask))
                   = drop_bit 5 (push_bit 5 y) OR drop_bit 5 (x AND bits_per_int_mask)"
    by (rule bit_eqI) (simp add: bit_drop_bit_eq bit_or_iff)
  ultimately show ?thesis
    by (simp only: word_index_low) simp
qed

lemma small_and_mask:
  assumes "c < 32"
  shows "(of_nat c :: u32) AND bits_per_int_mask = of_nat c"
proof -
  have m: "bits_per_int_mask = mask 5"
    by (simp add: bitset_consts mask_eq_exp_minus_1)
  have "\<not> bit (of_nat c :: u32) n" if "5 \<le> n" for n
    using small_high_bits [OF assms, of "n - 5"] that by simp
  then have "n < 5" if "bit (of_nat c :: u32) n" for n
    using that by (cases "n < 5") (simp_all add: not_less)
  then show ?thesis
    unfolding m by (intro bit_eqI) (auto simp add: bit_and_iff bit_mask_iff)
qed

lemma next_bits_agree:
  assumes wc: "word_count = drop_bit bits_per_int_lg2 bit_bound"
    and inv: "word_in_range word_count bit'"
  shows "next_bit_bounded bit_bound word_count bit' prev = next_bit_lg2 word_count bit' prev"
proof (cases "prev = - 1")
  case True
  then show ?thesis by (simp add: next_bit_bounded_def next_bit_lg2_def)
next
  case False
  let ?word = "drop_bit bits_per_int_lg2 bit'"
  let ?bit1 = "push_bit bits_per_int_lg2 ?word OR of_nat (countr_one prev) :: u32"
  note c = countr_one_less [OF False]
  have idx: "drop_bit bits_per_int_lg2 ?bit1 = ?word"
    using word_index_same [OF c, of bit'] by (simp add: bits_per_int_lg2_def)
  have "(if ?word + 1 < word_count then push_bit bits_per_int_lg2 (?word + 1) else 0)
          OR (?bit1 AND bits_per_int_mask) = ?bit1" if over: "bit_bound \<le> ?bit1"
  proof -
    from drop_bit_mono [OF over, of bits_per_int_lg2] have "word_count \<le> ?word"
      by (simp only: idx wc)
    with inv have z: "word_count = 0" "?word = 0"
      by (auto simp add: word_in_range_def)
    then show ?thesis
      using small_and_mask [OF c] by simp
  qed
  with False show ?thesis
    by (simp add: next_bit_bounded_def next_bit_lg2_def Let_def)
qed

lemma next_bit_in_range:
  assumes wc: "word_count = drop_bit bits_per_int_lg2 bit_bound"
    and inv: "word_in_range word_count bit'"
  shows "word_in_range word_count (next_bit_lg2 word_count bit' prev)"
proof (cases "prev = - 1")
  case True
  let ?word = "drop_bit bits_per_int_lg2 bit'"
  show ?thesis
  proof (cases "?word + 1 < word_count")
    case next_word: True
    then have "drop_bit 5 (push_bit 5 (?word + 1) OR (bit' AND bits_per_int_mask))
                 = ?word + 1"
      unfolding wc bits_per_int_lg2_def by (rule word_index_next)
    with True next_word show ?thesis
      by (simp add: next_bit_lg2_def word_in_range_def bits_per_int_lg2_def)
  next
    case False
    have "0 < word_count \<or> word_count = 0" using word_gt_0 [of word_count] by auto
    with True False word_index_low [of bit'] show ?thesis
      by (auto simp add: next_bit_lg2_def word_in_range_def bits_per_int_lg2_def)
  qed
next
  case False
  note c = countr_one_less [OF False]
  from False inv word_index_same [OF c, of bit'] show ?thesis
    by (simp add: next_bit_lg2_def word_in_range_def bits_per_int_lg2_def)
qed

lemma lg2_loop_imp_bounded_loop:
  assumes "acquire_bounded_lg2_loop buffer word_count state_bit_used bit' = Some y"
  shows "word_count = drop_bit bits_per_int_lg2 bit_bound \<longrightarrow>
         word_in_range word_count bit' \<longrightarrow>
         acquire_bounded_loop buffer bit_bound word_count state_bit_used bit' = Some y"
  using assms
proof (induct rule: acquire_bounded_lg2_loop.raw_induct
    [rotated 1, consumes 1, case_names step])
  case (step loop buffer word_count state_bit_used bit' y)
  note IH = step(1) and prems = step(2)
  let ?i = "unat (drop_bit bits_per_int_lg2 bit') + 1"
  let ?m = "push_bit (unat (bit' AND bits_per_int_mask)) 1 :: u32"
  show ?case
  proof (intro impI)
    assume wc: "word_count = drop_bit bits_per_int_lg2 bit_bound"
      and inv: "word_in_range word_count bit'"
    consider "\<not> ?i < length buffer" | "?i < length buffer" "(buffer ! ?i AND ?m) = 0"
      | "?i < length buffer" "(buffer ! ?i AND ?m) \<noteq> 0"
      by blast
    then show "acquire_bounded_loop buffer bit_bound word_count state_bit_used bit' = Some y"
    proof cases
      case 1
      with prems show ?thesis
        by (subst acquire_bounded_loop_unfold) (auto simp add: atomic_defs Let_def)
    next
      case 2
      with prems show ?thesis
        by (subst acquire_bounded_loop_unfold) (auto simp add: atomic_defs Let_def)
    next
      case 3
      with prems failed_or_keeps_buffer [OF 3]
      have "loop buffer word_count state_bit_used (next_bit_lg2 word_count bit' (buffer ! ?i))
              = Some y"
        by (simp add: atomic_defs Let_def next_bit_lg2_def)
      from IH [OF this] wc next_bit_in_range [OF wc inv]
      have "acquire_bounded_loop buffer bit_bound word_count state_bit_used
              (next_bit_lg2 word_count bit' (buffer ! ?i)) = Some y"
        by blast
      with 3 next_bits_agree [OF wc inv] show ?thesis
        by (subst acquire_bounded_loop_unfold) (simp add: Let_def)
    qed
  qed
qed

lemma bounded_loop_imp_lg2_loop:
  assumes "acquire_bounded_loop buffer bit_bound word_count state_bit_used bit' = Some y"
  shows "word_count = drop_bit bits_per_int_lg2 bit_bound \<longrightarrow>
         word_in_range word_count bit' \<longrightarrow>
         acquire_bounded_lg2_loop buffer word_count state_bit_used bit' = Some y"
  using assms
proof (induct rule: acquire_bounded_loop.raw_induct
    [rotated 1, consumes 1, case_names step])
  case (step loop buffer bit_bound word_count state_bit_used bit' y)
  note IH = step(1) and prems = step(2)
  let ?i = "unat (drop_bit bits_per_int_lg2 bit') + 1"
  let ?m = "push_bit (unat (bit' AND bits_per_int_mask)) 1 :: u32"
  show ?case
  proof (intro impI)
    assume wc: "word_count = drop_bit bits_per_int_lg2 bit_bound"
      and inv: "word_in_range word_count bit'"
    consider "\<not> ?i < length buffer" | "?i < length buffer" "(buffer ! ?i AND ?m) = 0"
      | "?i < length buffer" "(buffer ! ?i AND ?m) \<noteq> 0"
      by blast
    then show "acquire_bounded_lg2_loop buffer word_count state_bit_used bit' = Some y"
    proof cases
      case 1
      with prems show ?thesis
        by (subst acquire_bounded_lg2_loop_unfold) (auto simp add: atomic_defs Let_def)
    next
      case 2
      with prems show ?thesis
        by (subst acquire_bounded_lg2_loop_unfold) (auto simp add: atomic_defs Let_def)
    next
      case 3
      with prems failed_or_keeps_buffer [OF 3]
      have "loop buffer bit_bound word_count state_bit_used
              (next_bit_bounded bit_bound word_count bit' (buffer ! ?i)) = Some y"
        by (simp add: atomic_defs Let_def next_bit_bounded_def)
      then have "loop buffer bit_bound word_count state_bit_used
              (next_bit_lg2 word_count bit' (buffer ! ?i)) = Some y"
        by (simp only: next_bits_agree [OF wc inv])
      from IH [OF this] wc next_bit_in_range [OF wc inv]
      have "acquire_bounded_lg2_loop buffer word_count state_bit_used
              (next_bit_lg2 word_count bit' (buffer ! ?i)) = Some y"
        by blast
      with 3 show ?thesis
        by (subst acquire_bounded_lg2_loop_unfold) (simp add: Let_def)
    qed
  qed
qed

lemma loops_agree:
  assumes wc: "word_count = drop_bit bits_per_int_lg2 bit_bound"
    and inv: "word_in_range word_count bit'"
  shows "acquire_bounded_lg2_loop buffer word_count state_bit_used bit'
           = acquire_bounded_loop buffer bit_bound word_count state_bit_used bit'"
proof (cases "acquire_bounded_lg2_loop buffer word_count state_bit_used bit'")
  case (Some y)
  with lg2_loop_imp_bounded_loop [OF Some] wc inv show ?thesis by simp
next
  case None
  show ?thesis
  proof (cases "acquire_bounded_loop buffer bit_bound word_count state_bit_used bit'")
    case (Some y)
    with bounded_loop_imp_lg2_loop [OF Some] wc inv None show ?thesis by simp
  next
    case None
    with \<open>acquire_bounded_lg2_loop buffer word_count state_bit_used bit' = None\<close>
    show ?thesis by simp
  qed
qed

lemma hint_in_range:
  assumes lg2: "bit_bound_lg2 \<le> max_bit_count_lg2"
    and hint: "bit' < push_bit (unat bit_bound_lg2) (1 :: u32)"
  shows "word_in_range (drop_bit bits_per_int_lg2 (push_bit (unat bit_bound_lg2) 1)) bit'"
proof -
  let ?k = "unat bit_bound_lg2"
  let ?bb = "push_bit ?k 1 :: u32"
  have k: "?k \<le> 25"
    using lg2 by (simp add: word_le_nat_alt max_bit_count_lg2_def)
  then have bb: "unat ?bb = 2 ^ ?k"
    using unat_exp [of ?k] by simp
  have wc: "unat (drop_bit bits_per_int_lg2 ?bb) = 2 ^ ?k div 2 ^ 5"
    by (simp only: unat_drop_bit_eq bb bits_per_int_lg2_def drop_bit_eq_div [where ?'a = nat])
  have b: "unat bit' < 2 ^ ?k"
    using hint by (simp only: word_less_nat_alt bb)
  show ?thesis
  proof (cases "?k < 5")
    case True
    then have "(2 :: nat) ^ ?k < 2 ^ 5" by (intro power_strict_increasing) simp_all
    then have "drop_bit bits_per_int_lg2 ?bb = 0"
      by (simp only: wc flip: unat_eq_0) simp
    moreover have "drop_bit bits_per_int_lg2 bit' \<le> drop_bit bits_per_int_lg2 ?bb"
      using hint by (intro drop_bit_mono) simp
    ultimately show ?thesis by (simp add: word_in_range_def)
  next
    case False
    then have e: "(?k - 5) + 5 = ?k" by simp
    have "(2 :: nat) ^ ((?k - 5) + 5) = 2 ^ (?k - 5) * 2 ^ 5" by (rule power_add)
    then have "(2 :: nat) ^ ?k = 2 ^ (?k - 5) * 2 ^ 5"
      by (simp only: e)
    then have "unat bit' div 2 ^ 5 < 2 ^ ?k div 2 ^ 5"
      using b by (simp add: less_mult_imp_div_less)
    then have "drop_bit bits_per_int_lg2 bit' < drop_bit bits_per_int_lg2 ?bb"
      by (simp only: word_less_nat_alt bb unat_drop_bit_eq bits_per_int_lg2_def
          drop_bit_eq_div [where ?'a = nat])
    then show ?thesis by (simp add: word_in_range_def)
  qed
qed

text \<open>
  Claim C10: for \<open>bit_bound_lg2 \<le> 25\<close> and a hint below \<open>2 ^ bit_bound_lg2\<close>,
  \<open>acquire_bounded_lg2\<close> and \<open>acquire_bounded\<close> called with the capacity
  \<open>2 ^ bit_bound_lg2\<close> give the same result on every buffer and every
  \<open>state_header\<close>: the same pair with the same final buffer, the same fault, or
  both do not return.
\<close>

theorem acquire_bounded_lg2_refines:
  assumes lg2: "bit_bound_lg2 \<le> max_bit_count_lg2"
    and hint: "bit' < push_bit (unat bit_bound_lg2) 1"
  shows "acquire_bounded_lg2 buffer bit_bound_lg2 bit' state_header
           = acquire_bounded buffer (push_bit (unat bit_bound_lg2) 1) bit' state_header"
proof -
  let ?bb = "push_bit (unat bit_bound_lg2) 1 :: u32"
  have args: "\<not> max_bit_count_lg2 < bit_bound_lg2" "\<not> max_bit_count < ?bb"
    "\<not> ?bb < bit'" "\<not> ?bb \<le> bit'"
    using lg2 lg2_bound [OF lg2] hint by (simp_all add: not_less)
  note loops = loops_agree [OF refl hint_in_range [OF lg2 hint]]
  show ?thesis
    unfolding acquire_bounded_lg2_def acquire_bounded_def Let_def
    by (simp only: args loops)
qed

theorem acquire_bounded_lg2_refines_witness:
  "acquire_bounded_lg2 [2, 3] 3 0 0 = acquire_bounded [2, 3] 8 0 0"
proof -
  have "(3 :: u32) \<le> max_bit_count_lg2" and "(0 :: u32) < push_bit (unat (3 :: u32)) 1"
    by (simp_all add: bitset_consts)
  from acquire_bounded_lg2_refines [OF this] show ?thesis by simp
qed

section \<open>The retry loop of acquire\<close>

subsection \<open>The loop of the power-of-two variant returns\<close>

lemma countr_one_upto_zero:
  "countr_one_upto n w < n \<Longrightarrow> \<not> bit w (countr_one_upto n w)"
proof (induction n arbitrary: w)
  case 0
  then show ?case by simp
next
  case (Suc n)
  show ?case
  proof (cases "bit w 0")
    case True
    with Suc.prems have "countr_one_upto n (drop_bit 1 w) < n" by simp
    from Suc.IH [OF this] True show ?thesis
      by (simp add: bit_drop_bit_eq)
  next
    case False
    then show ?thesis by simp
  qed
qed

lemma countr_one_zero:
  assumes "prev \<noteq> - 1"
  shows "\<not> bit prev (countr_one prev)"
  using countr_one_less [OF assms] countr_one_upto_zero [of 32 prev]
  by (simp add: countr_one_def)

lemma unat_small: "c < 32 \<Longrightarrow> unat (of_nat c :: u32) = c"
  by (simp add: unat_of_nat)

lemma bit_index_next:
  assumes "c < 32"
  shows "(push_bit 5 (w :: u32) OR of_nat c) AND bits_per_int_mask = of_nat c"
proof -
  have m: "bits_per_int_mask = mask 5"
    by (simp add: bitset_consts mask_eq_exp_minus_1)
  have "(push_bit 5 w OR of_nat c) AND mask 5 = (of_nat c :: u32) AND mask 5"
    by (rule bit_eqI) (auto simp add: bit_and_iff bit_or_iff bit_mask_iff bit_push_bit_iff)
  then show ?thesis
    using small_and_mask [OF assms] by (simp only: m)
qed

lemma full_word_taken: "k < 32 \<Longrightarrow> ((- 1 :: u32) AND push_bit k 1) \<noteq> 0"
  using mask_clear_iff [of k "- 1"] by simp

lemma lg2_loop_claims_free_bit:
  assumes "unat (drop_bit bits_per_int_lg2 bit') = i" and "i < length bitmap"
    and "(bitmap ! i AND push_bit (unat (bit' AND bits_per_int_mask)) 1) = 0"
  shows "acquire_bounded_lg2_loop (header # bitmap) word_count state_bit_used bit'
           = Some (Inr ((sint bit', sint (state_bit_used + 1)),
               header # bitmap[i := bitmap ! i
                                 OR push_bit (unat (bit' AND bits_per_int_mask)) 1]))"
  using assms by (subst acquire_bounded_lg2_loop_unfold) (auto simp add: Let_def)

lemma lg2_loop_retry:
  assumes "unat (drop_bit bits_per_int_lg2 bit') = i" and "i < length bitmap"
    and "(bitmap ! i AND push_bit (unat (bit' AND bits_per_int_mask)) 1) \<noteq> 0"
  shows "acquire_bounded_lg2_loop (header # bitmap) word_count state_bit_used bit'
           = acquire_bounded_lg2_loop (header # bitmap) word_count state_bit_used
               (next_bit_lg2 word_count bit' (bitmap ! i))"
  using assms by (subst acquire_bounded_lg2_loop_unfold) (auto simp add: Let_def)

text \<open>On a word with a free bit the loop returns after at most two iterations.\<close>

lemma lg2_loop_returns_on_free_word:
  assumes i: "unat (drop_bit bits_per_int_lg2 bit') < length bitmap"
    and free: "bitmap ! unat (drop_bit bits_per_int_lg2 bit') \<noteq> - 1"
  shows "\<exists>r buffer'. acquire_bounded_lg2_loop (header # bitmap) word_count state_bit_used bit'
           = Some (Inr (r, buffer'))"
proof -
  let ?w = "drop_bit bits_per_int_lg2 bit'"
  let ?prev = "bitmap ! unat ?w"
  let ?m = "push_bit (unat (bit' AND bits_per_int_mask)) 1 :: u32"
  show ?thesis
  proof (cases "(?prev AND ?m) = 0")
    case True
    from lg2_loop_claims_free_bit [OF refl i True] show ?thesis by blast
  next
    case False
    let ?j = "countr_one ?prev"
    let ?next = "push_bit bits_per_int_lg2 ?w OR of_nat ?j :: u32"
    note j = countr_one_less [OF free]
    have nxt: "next_bit_lg2 word_count bit' ?prev = ?next"
      using free by (simp add: next_bit_lg2_def)
    have word: "unat (drop_bit bits_per_int_lg2 ?next) = unat ?w"
      using word_index_same [OF j, of bit'] by (simp only: bits_per_int_lg2_def)
    have "unat (?next AND bits_per_int_mask) = ?j"
      using bit_index_next [OF j, of ?w] unat_small [OF j]
      by (simp only: bits_per_int_lg2_def)
    then have clear: "(?prev AND push_bit (unat (?next AND bits_per_int_mask)) 1) = 0"
      using mask_clear_iff [OF j, of ?prev] countr_one_zero [OF free] by (simp only:) simp
    from lg2_loop_claims_free_bit [OF word i clear] show ?thesis
      by (simp only: lg2_loop_retry [OF refl i False] nxt) blast
  qed
qed

lemma word_in_range_index:
  assumes "word_in_range word_count bit'"
  shows "unat (drop_bit bits_per_int_lg2 bit') < max (unat word_count) 1"
  using assms by (auto simp add: word_in_range_def word_less_nat_alt)

lemma unat_word_index_succ:
  "unat (drop_bit 5 (b :: u32) + 1) = unat (drop_bit 5 b) + 1"
proof -
  have "unat b < 2 ^ 32" using unsigned_less [of b] by simp
  then have "unat b div 2 ^ 5 < 2 ^ 27" by simp
  then have "unat (drop_bit 5 b) + unat (1 :: u32) < 2 ^ LENGTH(32)"
    by (simp only: unat_drop_bit_eq drop_bit_eq_div [where ?'a = nat]) simp
  then show ?thesis
    using unat_add_lem [of "drop_bit 5 b" 1] by simp
qed

text \<open>From a full word the loop goes on to the next word, cyclically.\<close>

lemma next_word_index:
  assumes wc: "word_count = drop_bit bits_per_int_lg2 bit_bound"
    and inv: "word_in_range word_count bit'"
  shows "unat (drop_bit bits_per_int_lg2 (next_bit_lg2 word_count bit' (- 1)))
           = (unat (drop_bit bits_per_int_lg2 bit') + 1) mod max (unat word_count) 1"
proof -
  let ?w = "drop_bit bits_per_int_lg2 bit'"
  note w = word_in_range_index [OF inv]
  show ?thesis
  proof (cases "?w + 1 < word_count")
    case True
    then have "drop_bit 5 (push_bit 5 (?w + 1) OR (bit' AND bits_per_int_mask)) = ?w + 1"
      unfolding wc bits_per_int_lg2_def by (rule word_index_next)
    moreover have "unat (?w + 1) = unat ?w + 1"
      using unat_word_index_succ [of bit'] by (simp only: bits_per_int_lg2_def)
    moreover have "unat (?w + 1) < unat word_count"
      using True by (simp only: word_less_nat_alt)
    ultimately show ?thesis
      using True by (simp add: next_bit_lg2_def bits_per_int_lg2_def)
  next
    case False
    then have "unat word_count \<le> unat (?w + 1)"
      by (simp only: word_less_nat_alt not_less)
    then have "unat word_count \<le> unat ?w + 1"
      using unat_word_index_succ [of bit'] by (simp only: bits_per_int_lg2_def)
    with w have "(unat ?w + 1) mod max (unat word_count) 1 = 0"
      by (cases "unat word_count = 0") (auto simp add: max_def le_Suc_eq)
    with False word_index_low [of bit'] show ?thesis
      by (simp add: next_bit_lg2_def bits_per_int_lg2_def)
  qed
qed

lemma lg2_loop_returns_within:
  assumes wc: "word_count = drop_bit bits_per_int_lg2 bit_bound"
    and len: "length bitmap = max (unat word_count) 1"
  shows "word_in_range word_count bit' \<Longrightarrow>
         bitmap ! ((unat (drop_bit bits_per_int_lg2 bit') + d) mod length bitmap) \<noteq> - 1 \<Longrightarrow>
         \<exists>r buffer'. acquire_bounded_lg2_loop (header # bitmap) word_count state_bit_used bit'
           = Some (Inr (r, buffer'))"
proof (induction d arbitrary: bit')
  case 0
  from word_in_range_index [OF "0.prems"(1)]
  have i: "unat (drop_bit bits_per_int_lg2 bit') < length bitmap"
    by (simp only: len)
  with "0.prems"(2) show ?case
    by (intro lg2_loop_returns_on_free_word) simp_all
next
  case (Suc d)
  let ?w = "drop_bit bits_per_int_lg2 bit'"
  from word_in_range_index [OF Suc.prems(1)]
  have i: "unat ?w < length bitmap"
    by (simp only: len)
  show ?case
  proof (cases "bitmap ! unat ?w = - 1")
    case False
    with i show ?thesis by (intro lg2_loop_returns_on_free_word)
  next
    case True
    let ?next = "next_bit_lg2 word_count bit' (- 1)"
    have taken: "(bitmap ! unat ?w AND push_bit (unat (bit' AND bits_per_int_mask)) 1) \<noteq> 0"
      unfolding True by (rule full_word_taken [OF bit_index_less])
    have step: "acquire_bounded_lg2_loop (header # bitmap) word_count state_bit_used bit'
                  = acquire_bounded_lg2_loop (header # bitmap) word_count state_bit_used ?next"
      using lg2_loop_retry [OF refl i taken] by (simp only: True)
    have "(unat (drop_bit bits_per_int_lg2 ?next) + d) mod length bitmap
            = (unat ?w + Suc d) mod length bitmap"
      by (simp only: next_word_index [OF wc Suc.prems(1)] len [symmetric] mod_add_left_eq)
        (simp add: add.commute add.left_commute)
    with Suc.prems(2) have "bitmap ! ((unat (drop_bit bits_per_int_lg2 ?next) + d)
                              mod length bitmap) \<noteq> - 1"
      by simp
    from Suc.IH [OF next_bit_in_range [OF wc Suc.prems(1)] this] show ?thesis
      by (simp only: step)
  qed
qed

lemma popcount_upto_full: "n \<le> 32 \<Longrightarrow> popcount_upto n (- 1) = n"
  by (induction n) simp_all

lemma popcount_full_words:
  "\<forall>w \<in> set bitmap. w = - 1 \<Longrightarrow> sum_list (map popcount bitmap) = 32 * length bitmap"
  by (induction bitmap) (simp_all add: popcount_def popcount_upto_full)

lemma bitmap_words_lg2:
  assumes lg2: "bit_bound_lg2 \<le> max_bit_count_lg2"
  shows "unat (buffer_bound_lg2 bit_bound_lg2) = 1 + 2 ^ (unat bit_bound_lg2 - 5)"
    and "max (unat (drop_bit bits_per_int_lg2 (push_bit (unat bit_bound_lg2) 1 :: u32))) 1
           = 2 ^ (unat bit_bound_lg2 - 5)"
    and "(2 :: nat) ^ unat bit_bound_lg2 \<le> 32 * 2 ^ (unat bit_bound_lg2 - 5)"
proof -
  let ?k = "unat bit_bound_lg2"
  have k: "?k \<le> 25"
    using lg2 by (simp add: word_le_nat_alt max_bit_count_lg2_def)
  have five: "(of_nat bits_per_int_lg2 :: u32) < bit_bound_lg2 \<longleftrightarrow> 5 < ?k"
    by (simp add: word_less_nat_alt bits_per_int_lg2_def)
  have sub: "unat (bit_bound_lg2 - of_nat bits_per_int_lg2) = ?k - 5" if "5 < ?k"
    using that by (simp add: unat_sub word_le_nat_alt bits_per_int_lg2_def)
  have "?k - 5 < 32" using k by simp
  then have p: "unat (2 ^ (?k - 5) :: u32) = 2 ^ (?k - 5)" by (rule unat_exp)
  have "(2 :: nat) ^ (?k - 5) \<le> 2 ^ 20"
    using k by (intro power_increasing) simp_all
  then have "unat (1 :: u32) + unat (2 ^ (?k - 5) :: u32) < 2 ^ LENGTH(32)"
    by (simp add: p)
  then have "unat (1 + 2 ^ (?k - 5) :: u32) = 1 + 2 ^ (?k - 5)"
    using unat_add_lem [of "1 :: u32" "2 ^ (?k - 5)"] by (simp add: p)
  then show "unat (buffer_bound_lg2 bit_bound_lg2) = 1 + 2 ^ (?k - 5)"
    using lg2 five sub by (cases "5 < ?k") (simp_all add: buffer_bound_lg2_def)
  have bb: "unat (push_bit ?k 1 :: u32) = 2 ^ ?k"
    using k unat_exp [of ?k] by simp
  have wc: "unat (drop_bit bits_per_int_lg2 (push_bit ?k 1 :: u32)) = 2 ^ ?k div 2 ^ 5"
    by (simp only: unat_drop_bit_eq bb bits_per_int_lg2_def drop_bit_eq_div [where ?'a = nat])
  show "max (unat (drop_bit bits_per_int_lg2 (push_bit ?k 1 :: u32))) 1 = 2 ^ (?k - 5)"
  proof (cases "?k < 5")
    case True
    then have "(2 :: nat) ^ ?k < 2 ^ 5" by (intro power_strict_increasing) simp_all
    with True show ?thesis by (simp only: wc) simp
  next
    case False
    then have e: "(?k - 5) + 5 = ?k" by simp
    have "(2 :: nat) ^ ((?k - 5) + 5) = 2 ^ (?k - 5) * 2 ^ 5" by (rule power_add)
    then have "(2 :: nat) ^ ?k div 2 ^ 5 = 2 ^ (?k - 5)" by (simp only: e) simp
    then show ?thesis by (simp only: wc) simp
  qed
  show "(2 :: nat) ^ ?k \<le> 32 * 2 ^ (?k - 5)"
  proof (cases "?k < 5")
    case True
    then have "(2 :: nat) ^ ?k \<le> 2 ^ 5" by (intro power_increasing) simp_all
    with True show ?thesis by simp
  next
    case False
    then have e: "(?k - 5) + 5 = ?k" by simp
    have "(2 :: nat) ^ ((?k - 5) + 5) = 2 ^ (?k - 5) * 2 ^ 5" by (rule power_add)
    then show ?thesis by (simp only: e) simp
  qed
qed

text \<open>
  The variant that takes the capacity as a power of two always returns: on a buffer of
  \<open>buffer_bound_lg2\<close> words in which the used count is the number of bits set, a call
  with a hint below the capacity returns a pair, whatever the tag and the count.
\<close>

lemma acquire_bounded_lg2_returns:
  assumes lg2: "bit_bound_lg2 \<le> max_bit_count_lg2"
    and len: "length buffer = unat (buffer_bound_lg2 bit_bound_lg2)"
    and q: "quiescent (push_bit (unat bit_bound_lg2) 1) buffer"
    and hint: "bit' < push_bit (unat bit_bound_lg2) 1"
  shows "\<exists>r buffer'. acquire_bounded_lg2 buffer bit_bound_lg2 bit' state_header
           = Some (Inr (r, buffer'))"
proof -
  let ?bb = "push_bit (unat bit_bound_lg2) 1 :: u32"
  let ?wc = "drop_bit bits_per_int_lg2 ?bb"
  from q obtain header bitmap where buffer: "buffer = header # bitmap"
    by (cases buffer) (simp_all add: quiescent_def)
  note words = bitmap_words_lg2 [OF lg2]
  from len have n': "length bitmap = 2 ^ (unat bit_bound_lg2 - 5)"
    by (simp add: buffer words(1))
  then have n: "length bitmap = max (unat ?wc) 1"
    by (simp only: words(2))
  show ?thesis
  proof (cases "(state_header AND NOT state_header_mask) \<noteq> 0
                  \<or> state_header \<noteq> (header AND state_header_mask)
                  \<or> ?bb \<le> (header AND state_used_mask)")
    case True
    with lg2 hint show ?thesis
      by (auto simp add: buffer acquire_bounded_lg2_def header_add_sub Let_def not_less)
  next
    case False
    then have free: "(header AND state_used_mask) < ?bb" by (simp add: not_le)
    have "unat ?bb = 2 ^ unat bit_bound_lg2"
      using lg2 unat_exp [of "unat bit_bound_lg2"]
      by (simp add: word_le_nat_alt max_bit_count_lg2_def)
    with free words(3) have "unat (header AND state_used_mask) < 32 * length bitmap"
      by (simp add: word_less_nat_alt n')
    with q have "sum_list (map popcount bitmap) \<noteq> 32 * length bitmap"
      by (simp add: buffer quiescent_Cons)
    with popcount_full_words [of bitmap] obtain w where "w \<in> set bitmap" "w \<noteq> - 1"
      by blast
    then obtain idx where idx: "idx < length bitmap" "bitmap ! idx \<noteq> - 1"
      by (auto simp add: in_set_conv_nth)
    note inv = hint_in_range [OF lg2 hint]
    from word_in_range_index [OF inv]
    have w0: "unat (drop_bit bits_per_int_lg2 bit') < length bitmap"
      by (simp only: n)
    let ?d = "idx + length bitmap - unat (drop_bit bits_per_int_lg2 bit')"
    from w0 idx(1)
    have "(unat (drop_bit bits_per_int_lg2 bit') + ?d) mod length bitmap = idx"
      by simp
    with idx(2)
    have "bitmap ! ((unat (drop_bit bits_per_int_lg2 bit') + ?d) mod length bitmap) \<noteq> - 1"
      by simp
    from lg2_loop_returns_within [OF refl n inv this]
    have "\<exists>r buffer'. acquire_bounded_lg2_loop ((header + 1) # bitmap) ?wc
            (header AND state_used_mask) bit' = Some (Inr (r, buffer'))" .
    with False lg2 hint show ?thesis
      by (simp add: buffer acquire_bounded_lg2_def header_add_sub Let_def not_less not_le)
  qed
qed

subsection \<open>The loop of the bounded variant can spin\<close>

text \<open>
  A failed iteration leaves the buffer as it is. When it also computes the bit it has just
  tried as the next bit to try, the loop of \<open>acquire_bounded\<close> never returns.
\<close>

lemma acquire_bounded_loop_spins:
  assumes i: "unat (drop_bit bits_per_int_lg2 bit') + 1 < length buffer"
    and claimed: "(buffer ! (unat (drop_bit bits_per_int_lg2 bit') + 1)
                    AND push_bit (unat (bit' AND bits_per_int_mask)) 1) \<noteq> 0"
    and same: "next_bit_bounded bit_bound word_count bit'
                 (buffer ! (unat (drop_bit bits_per_int_lg2 bit') + 1)) = bit'"
  shows "acquire_bounded_loop buffer bit_bound word_count state_bit_used bit' = None"
proof (rule ccontr)
  assume "acquire_bounded_loop buffer bit_bound word_count state_bit_used bit' \<noteq> None"
  then obtain y where
    y: "acquire_bounded_loop buffer bit_bound word_count state_bit_used bit' = Some y"
    by auto
  have "\<not> (buffer0 = buffer \<and> bit_bound0 = bit_bound \<and> word_count0 = word_count
           \<and> used0 = state_bit_used \<and> bit0 = bit')"
    if "acquire_bounded_loop buffer0 bit_bound0 word_count0 used0 bit0 = Some y0"
    for buffer0 bit_bound0 word_count0 used0 bit0 y0
    using that
  proof (induct rule: acquire_bounded_loop.raw_induct
      [rotated 1, consumes 1, case_names step])
    case (step loop buffer0 bit_bound0 word_count0 used0 bit0 y0)
    note IH = step(1) and prems = step(2)
    show ?case
    proof
      assume eq: "buffer0 = buffer \<and> bit_bound0 = bit_bound \<and> word_count0 = word_count
                    \<and> used0 = state_bit_used \<and> bit0 = bit'"
      then have e: "buffer0 = buffer" "bit_bound0 = bit_bound" "word_count0 = word_count"
        "used0 = state_bit_used" "bit0 = bit'"
        by simp_all
      from prems [unfolded e] i claimed failed_or_keeps_buffer [OF i claimed]
      have "loop buffer bit_bound word_count state_bit_used
              (next_bit_bounded bit_bound word_count bit'
                 (buffer ! (unat (drop_bit bits_per_int_lg2 bit') + 1))) = Some y0"
        by (simp add: atomic_defs Let_def next_bit_bounded_def)
      then have "loop buffer bit_bound word_count state_bit_used bit' = Some y0"
        by (simp only: same)
      from IH [OF this] show False by simp
    qed
  qed
  from this [OF y] show False by simp
qed

lemma acquire_bounded_full_first_word:
  "acquire_bounded [32, - 1, 0] 33 0 0 = None"
proof -
  have "next_bit_bounded 33 1 0 (- 1) = 0"
    by (simp add: next_bit_bounded_def bitset_consts)
  then have "acquire_bounded_loop [33, - 1, 0] 33 1 32 0 = None"
    by (intro acquire_bounded_loop_spins) (simp_all add: bitset_consts)
  then show ?thesis
    by (simp add: acquire_bounded_def header_add_sub bitset_consts)
qed

text \<open>
  Claim C9, evaluated on the code. The claim: once the reserve phase has found a free
  bit, the retry loop returns a claimed bit. \<open>acquire_bounded\<close> computes
  \<^verbatim>\<open>word_count = bit_bound >> 5\<close>, rounding down where \<open>buffer_bound\<close> rounds up, so
  for a capacity of 33 the loop wraps from word 0 to word 0. On the 3-word buffer with
  bits 0 to 31 claimed, bit 32 free and a used count of 32 (arguments valid, tag
  matching, 32 < 33, the count equal to the number of bits set), the call with the
  hint 0 does not return. The power-of-two variant does return there
  (\<open>acquire_bounded_lg2_returns\<close>).
\<close>

theorem acquire_bounded_retry_loop_diverges:
  "buffer_bound 33 = 3 \<and> quiescent 33 [32, - 1, 0] \<and>
   acquire_bounded [32, - 1, 0] 33 0 0 = None"
proof -
  have "quiescent 33 [32, - 1, 0]" by code_simp
  then show ?thesis
    using acquire_bounded_full_first_word by (simp add: buffer_bound_def bitset_consts)
qed

theorem acquire_bounded_retry_loop_diverges_witness:
  "\<not> (max_bit_count < 33 \<or> ((0 :: u32) AND NOT state_header_mask) \<noteq> 0
      \<or> (33 :: u32) \<le> 0)
   \<and> used_count [32, - 1, 0] < 33
   \<and> acquire_bounded [32, - 1, 0] 33 0 0 = None"
  using acquire_bounded_retry_loop_diverges
  by (simp add: bitset_consts used_count_def)

section \<open>Exhaustion\<close>

text \<open>
  The scenario of capacity 8: eight acquires on the zeroed buffer return the bits 0 to 7
  with the counts 1 to 8, and the ninth returns \<open>(-1, -1)\<close> with the count left at 8.
\<close>

lemma exhaustion_capacity_8:
  "acquire_times 8 8 [0, 0]
     = Some ([(0, 1), (1, 2), (2, 3), (3, 4), (4, 5), (5, 6), (6, 7), (7, 8)], [8, 255])"
  "acquire_bounded [8, 255] 8 0 0 = Some (Inr ((- 1, - 1), [8, 255]))"
  by code_simp+

text \<open>
  Claim C4, evaluated on the code. The claim: on a zeroed buffer of capacity \<open>C\<close>,
  \<open>C\<close> consecutive acquires succeed and the next one returns \<open>(-1, -1)\<close>. For
  \<open>C = 33\<close> the first 32 acquires return the bits 0 to 31 with the counts 1 to 32, and
  the 33rd, with a free bit left, does not return.
\<close>

theorem acquire_33rd_of_33_diverges:
  "acquire_times 32 33 [0, 0, 0]
     = Some (map (\<lambda>k. (int k, int k + 1)) [0..<32], [32, - 1, 0])
   \<and> acquire_bounded [32, - 1, 0] 33 0 0 = None"
proof -
  have "acquire_times 32 33 [0, 0, 0]
          = Some (map (\<lambda>k. (int k, int k + 1)) [0..<32], [32, - 1, 0])"
    by code_simp
  then show ?thesis
    using acquire_bounded_full_first_word by simp
qed

theorem acquire_33rd_of_33_diverges_witness:
  "\<not> (max_bit_count < 33 \<or> ((0 :: u32) AND NOT state_header_mask) \<noteq> 0
      \<or> (33 :: u32) \<le> 0)
   \<and> (\<exists>rs. acquire_times 32 33 [0, 0, 0] = Some (rs, [32, - 1, 0]) \<and> length rs = 32)
   \<and> acquire_bounded [32, - 1, 0] 33 0 0 = None"
  using acquire_33rd_of_33_diverges by (simp add: bitset_consts)

end
